theory Spec2Isabelle
  imports Complex_Main "HOL-Library.Sublist" "HOL-Library.Log_Nat"
begin

section \<open>The associative container (CustomeDictionary.py)\<close>

text \<open>
  \<^verbatim>\<open>CustomDictionary\<close> is an open-chained hash table. A key is a Python string or
  any other hashable object, a value of the type \<open>'a\<close>. The built-in \<^verbatim>\<open>hash\<close> and the
  comparison \<^verbatim>\<open>==\<close> of such objects are the fields of a parameter \<open>ops\<close> of every
  operation: \<^verbatim>\<open>==\<close> need not be equality (a float NaN is not \<^verbatim>\<open>==\<close> to itself).
  Strings compare by value, and a string is \<^verbatim>\<open>==\<close> to no other object.
  An exception is a value \<open>Inl e\<close>; an operation that
  mutates \<^verbatim>\<open>self\<close> returns the new object state. The field \<^verbatim>\<open>size\<close> is
  written \<open>size'\<close>. \<^verbatim>\<open>load_factor_threshold\<close> is assigned once, in the
  constructor, and is a constant here. The comparison
  \<^verbatim>\<open>self.size / self.capacity >= self.load_factor_threshold\<close> is taken over the
  reals: Python's quotient of two integers is correctly rounded and 0.75 is a binary
  fraction, so the two agree for every capacity below \<open>2^52\<close>.
\<close>

datatype error = KeyError | IndexError | ZeroDivisionError

datatype 'a key = Str string | Other 'a

record 'a key_ops =
  py_hash :: "'a \<Rightarrow> int"
  py_eq :: "'a \<Rightarrow> 'a \<Rightarrow> bool"

text \<open>\<open>key_eq ops a b\<close> is \<^verbatim>\<open>a == b\<close> on keys.\<close>

definition key_eq :: "'a key_ops \<Rightarrow> 'a key \<Rightarrow> 'a key \<Rightarrow> bool" where
  "key_eq ops a b =
     (case a of
        Str s \<Rightarrow> (case b of Str t \<Rightarrow> s = t | Other y \<Rightarrow> False)
      | Other x \<Rightarrow> (case b of Str t \<Rightarrow> False | Other y \<Rightarrow> py_eq ops x y))"

record ('a, 'v) CustomDictionary =
  capacity :: nat
  size' :: int
  buckets :: "('a key \<times> 'v) list list"

definition load_factor_threshold :: real where
  "load_factor_threshold = 0.75"

definition init :: "nat \<Rightarrow> ('a, 'v) CustomDictionary" where
  "init initial_capacity =
     \<lparr>capacity = initial_capacity, size' = 0, buckets = replicate initial_capacity []\<rparr>"

definition ord :: "char \<Rightarrow> nat" where
  "ord c = of_char c"

definition hash_key :: "'a key_ops \<Rightarrow> ('a, 'v) CustomDictionary \<Rightarrow> 'a key \<Rightarrow> error + nat" where
  "hash_key ops d key =
     (case key of
        Str s \<Rightarrow>
          (let p = 31; m = capacity d in
           if s \<noteq> [] \<and> m = 0 then Inl ZeroDivisionError
           else Inr (foldl (\<lambda>hash_value char. (hash_value * p + ord char) mod m) 0 s))
      | Other x \<Rightarrow>
          (if capacity d = 0 then Inl ZeroDivisionError
           else Inr (nat (py_hash ops x mod int (capacity d)))))"

text \<open>The \<^verbatim>\<open>enumerate\<close> loop of \<^verbatim>\<open>__setitem__\<close> and \<^verbatim>\<open>__delitem__\<close>: the index
  of the first entry with \<^verbatim>\<open>existing_key == key\<close>; \<open>eq\<close> is the comparison.\<close>

fun position :: "('k \<Rightarrow> 'k \<Rightarrow> bool) \<Rightarrow> 'k \<Rightarrow> ('k \<times> 'v) list \<Rightarrow> nat option" where
  "position eq key [] = None"
| "position eq key ((existing_key, _) # bucket) =
     (if eq existing_key key then Some 0 else map_option Suc (position eq key bucket))"

function setitem :: "'a key_ops \<Rightarrow> ('a, 'v) CustomDictionary \<Rightarrow> 'a key \<Rightarrow> 'v \<Rightarrow> error + ('a, 'v) CustomDictionary"
  and resize :: "'a key_ops \<Rightarrow> ('a, 'v) CustomDictionary \<Rightarrow> error + ('a, 'v) CustomDictionary"
  and rehash :: "'a key_ops \<Rightarrow> ('a, 'v) CustomDictionary \<Rightarrow> ('a key \<times> 'v) list list \<Rightarrow> error + ('a, 'v) CustomDictionary"
where
  "setitem ops d key val =
     (case hash_key ops d key of
        Inl e \<Rightarrow> Inl e
      | Inr index \<Rightarrow>
          if length (buckets d) \<le> index then Inl IndexError
          else
            (case position (key_eq ops) key (buckets d ! index) of
               Some i \<Rightarrow>
                 Inr (d\<lparr>buckets := (buckets d)[index := (buckets d ! index)[i := (key, val)]]\<rparr>)
             | None \<Rightarrow>
                 if capacity d = 0 then Inl ZeroDivisionError
                 else if load_factor_threshold \<le> real_of_int (size' d + 1) / real (capacity d)
                 then resize ops (d\<lparr>buckets := (buckets d)[index := buckets d ! index @ [(key, val)]],
                             size' := size' d + 1\<rparr>)
                 else Inr (d\<lparr>buckets := (buckets d)[index := buckets d ! index @ [(key, val)]],
                             size' := size' d + 1\<rparr>)))"
| "resize ops d =
     rehash ops (d\<lparr>capacity := capacity d * 2,
                       buckets := replicate (capacity d * 2) [],
                       size' := 0\<rparr>) (buckets d)"
| "rehash ops d [] = Inr d"
| "rehash ops d ([] # old_buckets) = rehash ops d old_buckets"
| "rehash ops d (((key, val) # bucket) # old_buckets) =
     (case setitem ops d key val of
        Inl e \<Rightarrow> Inl e
      | Inr d' \<Rightarrow> rehash ops d' (bucket # old_buckets))"
  by pat_completeness auto


definition entries :: "('a, 'v) CustomDictionary \<Rightarrow> nat" where
  "entries d = length (concat (buckets d))"

definition slack :: "('a, 'v) CustomDictionary \<Rightarrow> int" where
  "slack d = 4 * max (size' d) (int (entries d)) - 3 * int (capacity d)"

lemma length_concat_update:
  "i < length xss \<Longrightarrow>
     length (concat (xss[i := ys])) + length (xss ! i) = length (concat xss) + length ys"
proof (induction xss arbitrary: i)
  case Nil
  then show ?case by simp
next
  case (Cons xs xss)
  then show ?case by (cases i) auto
qed

lemma entries_append:
  "i < length (buckets d) \<Longrightarrow>
     entries (d\<lparr>buckets := (buckets d)[i := buckets d ! i @ [e]], size' := s\<rparr>) = Suc (entries d)"
  using length_concat_update[of i "buckets d" "buckets d ! i @ [e]"]
  by (simp add: entries_def)

lemma entries_replace:
  "i < length (buckets d) \<Longrightarrow>
     entries (d\<lparr>buckets := (buckets d)[i := (buckets d ! i)[j := e]]\<rparr>) = entries d"
  using length_concat_update[of i "buckets d" "(buckets d ! i)[j := e]"]
  by (simp add: entries_def)

lemma threshold_iff:
  "c \<noteq> 0 \<Longrightarrow> (load_factor_threshold \<le> real_of_int s / real c) = (3 * int c \<le> 4 * s)"
proof -
  assume "c \<noteq> 0"
  then have "0 < real c" by simp
  then have "(3 / 4 \<le> real_of_int s / real c) = (3 / 4 * real c \<le> real_of_int s)"
    by (simp add: pos_le_divide_eq)
  also have "\<dots> = (real_of_int (3 * int c) \<le> real_of_int (4 * s))"
    by (simp add: mult.commute)
  also have "\<dots> = (3 * int c \<le> 4 * s)"
    by (simp only: of_int_le_iff)
  finally show ?thesis by (simp add: load_factor_threshold_def)
qed

lemma slack_partial:
  "setitem_resize_rehash_dom (Inl (ops, d, key, val)) \<Longrightarrow>
     (\<forall>d'. setitem ops d key val = Inr d' \<longrightarrow> slack d' \<le> slack d + 4)"
  "setitem_resize_rehash_dom (Inr (Inl (ops, d))) \<Longrightarrow>
     (\<forall>d'. resize ops d = Inr d' \<longrightarrow> slack d' \<le> 4 * int (entries d) - 6 * int (capacity d))"
  "setitem_resize_rehash_dom (Inr (Inr (ops, d, old_buckets))) \<Longrightarrow>
     (\<forall>d'. rehash ops d old_buckets = Inr d' \<longrightarrow>
        slack d' \<le> slack d + 4 * int (length (concat old_buckets)))"
proof (induction rule: setitem_resize_rehash.pinduct)
  case (1 ops d key val)
  show ?case
  proof (intro allI impI)
    fix d' assume r: "setitem ops d key val = Inr d'"
    from r obtain index where h: "hash_key ops d key = Inr index"
      by (auto simp: setitem.psimps[OF "1.hyps"] split: sum.splits)
    from r h have len: "index < length (buckets d)"
      by (auto simp: setitem.psimps[OF "1.hyps"] split: if_splits)
    show "slack d' \<le> slack d + 4"
    proof (cases "position (key_eq ops) key (buckets d ! index)")
      case (Some i)
      with r h len have "d' = d\<lparr>buckets := (buckets d)[index := (buckets d ! index)[i := (key, val)]]\<rparr>"
        by (simp add: setitem.psimps[OF "1.hyps"])
      then show ?thesis using entries_replace[OF len] by (simp add: slack_def)
    next
      case None
      let ?d1 = "d\<lparr>buckets := (buckets d)[index := buckets d ! index @ [(key, val)]],
                     size' := size' d + 1\<rparr>"
      from r h len None have c: "capacity d \<noteq> 0"
        by (auto simp: setitem.psimps[OF "1.hyps"] split: if_splits)
      have e1: "entries ?d1 = Suc (entries d)" by (rule entries_append[OF len])
      show ?thesis
      proof (cases "load_factor_threshold \<le> real_of_int (size' d + 1) / real (capacity d)")
        case True
        with r h len None c have "resize ops ?d1 = Inr d'"
          by (simp add: setitem.psimps[OF "1.hyps"])
        with "1.IH"[OF h _ None c True] len
        have "slack d' \<le> 4 * int (entries ?d1) - 6 * int (capacity ?d1)" by simp
        with e1 have "slack d' \<le> 4 * int (entries d) + 4 - 6 * int (capacity d)" by simp
        moreover have "int (entries d) \<le> max (size' d) (int (entries d))" by simp
        ultimately show ?thesis unfolding slack_def[of d] by linarith
      next
        case False
        with r h len None c have "d' = ?d1"
          by (simp add: setitem.psimps[OF "1.hyps"])
        with e1 show ?thesis by (simp add: slack_def max_def)
      qed
    qed
  qed
next
  case (2 ops d)
  then show ?case
    by (simp add: resize.psimps[OF "2.hyps"] slack_def entries_def)
next
  case (3 ops d)
  then show ?case by (simp add: rehash.psimps)
next
  case (4 ops d old_buckets)
  then show ?case by (simp add: rehash.psimps)
next
  case (5 ops d key val bucket old_buckets)
  then show ?case
    by (auto simp: rehash.psimps split: sum.splits)
qed

definition call_measure ::
  "'a key_ops \<times> ('a, 'v) CustomDictionary \<times> 'a key \<times> 'v +
   'a key_ops \<times> ('a, 'v) CustomDictionary +
   'a key_ops \<times> ('a, 'v) CustomDictionary \<times> ('a key \<times> 'v) list list \<Rightarrow> nat \<times> nat \<times> nat" where
  "call_measure x =
     (case x of
        Inl (ops, d, key, val) \<Rightarrow> (nat (slack d + 5), 0, 0)
      | Inr (Inl (ops, d)) \<Rightarrow> (nat (4 * int (entries d) - 6 * int (capacity d) + 1), 2, 0)
      | Inr (Inr (ops, d, old_buckets)) \<Rightarrow>
          (nat (slack d + 4 * int (length (concat old_buckets)) + 1), 1,
           length old_buckets + length (concat old_buckets)))"

termination setitem
proof (relation "inv_image (less_than <*lex*> less_than <*lex*> less_than) call_measure")
  show "wf (inv_image (less_than <*lex*> less_than <*lex*> less_than) call_measure)"
    by (intro wf_inv_image wf_lex_prod wf_less_than)
next
  fix ops :: "'a key_ops" and d :: "('a, 'v) CustomDictionary" and key val x2
  assume h: "hash_key ops d key = Inr x2" and len: "\<not> length (buckets d) \<le> x2"
    and c: "capacity d \<noteq> 0"
    and t: "load_factor_threshold \<le> real_of_int (size' d + 1) / real (capacity d)"
  from len have e1: "entries (d\<lparr>buckets := (buckets d)[x2 := buckets d ! x2 @ [(key, val)]],
                     size' := size' d + 1\<rparr>) = Suc (entries d)"
    by (intro entries_append) simp
  from t have "3 * int (capacity d) \<le> 4 * (size' d + 1)"
    by (simp only: threshold_iff[OF c])
  with c e1
  show "(Inr (Inl (ops, d\<lparr>buckets := (buckets d)[x2 := buckets d ! x2 @ [(key, val)]],
                     size' := size' d + 1\<rparr>)), Inl (ops, d, key, val))
        \<in> inv_image (less_than <*lex*> less_than <*lex*> less_than) call_measure"
    by (simp add: call_measure_def slack_def) linarith
next
  fix ops :: "'a key_ops" and d :: "('a, 'v) CustomDictionary"
  show "(Inr (Inr (ops, d\<lparr>capacity := capacity d * 2, buckets := replicate (capacity d * 2) [],
                     size' := 0\<rparr>, buckets d)), Inr (Inl (ops, d)))
        \<in> inv_image (less_than <*lex*> less_than <*lex*> less_than) call_measure"
    by (simp add: call_measure_def slack_def entries_def)
next
  fix ops :: "'a key_ops" and d :: "('a, 'v) CustomDictionary" and old_buckets
  show "(Inr (Inr (ops, d, old_buckets)), Inr (Inr (ops, d, [] # old_buckets)))
        \<in> inv_image (less_than <*lex*> less_than <*lex*> less_than) call_measure"
    by (simp add: call_measure_def)
next
  fix ops :: "'a key_ops" and d :: "('a, 'v) CustomDictionary" and key val bucket old_buckets
  show "(Inl (ops, d, key, val), Inr (Inr (ops, d, ((key, val) # bucket) # old_buckets)))
        \<in> inv_image (less_than <*lex*> less_than <*lex*> less_than) call_measure"
    by (auto simp: call_measure_def)
next
  fix ops :: "'a key_ops" and d :: "('a, 'v) CustomDictionary" and key val bucket old_buckets x2
  assume r: "setitem ops d key val = Inr x2"
    and dom: "setitem_resize_rehash_dom (Inl (ops, d, key, val))"
  from slack_partial(1)[OF dom] r have "slack x2 \<le> slack d + 4" by blast
  then show "(Inr (Inr (ops, x2, bucket # old_buckets)),
         Inr (Inr (ops, d, ((key, val) # bucket) # old_buckets)))
        \<in> inv_image (less_than <*lex*> less_than <*lex*> less_than) call_measure"
    by (auto simp: call_measure_def)
qed



declare setitem.simps [simp del] resize.simps [simp del]

text \<open>The loop of \<^verbatim>\<open>__getitem__\<close> over one bucket: the value of the first entry
  whose key equals \<open>key\<close>.\<close>

fun scan :: "('k \<Rightarrow> 'k \<Rightarrow> bool) \<Rightarrow> 'k \<Rightarrow> ('k \<times> 'v) list \<Rightarrow> 'v option" where
  "scan eq key [] = None"
| "scan eq key ((existing_key, val) # bucket) =
     (if eq existing_key key then Some val else scan eq key bucket)"

definition getitem :: "'a key_ops \<Rightarrow> ('a, 'v) CustomDictionary \<Rightarrow> 'a key \<Rightarrow> error + 'v" where
  "getitem ops d key =
     (case hash_key ops d key of
        Inl e \<Rightarrow> Inl e
      | Inr index \<Rightarrow>
          if length (buckets d) \<le> index then Inl IndexError
          else
            (case scan (key_eq ops) key (buckets d ! index) of
               Some val \<Rightarrow> Inr val
             | None \<Rightarrow> Inl KeyError))"

definition delitem :: "'a key_ops \<Rightarrow> ('a, 'v) CustomDictionary \<Rightarrow> 'a key \<Rightarrow> error + ('a, 'v) CustomDictionary" where
  "delitem ops d key =
     (case hash_key ops d key of
        Inl e \<Rightarrow> Inl e
      | Inr index \<Rightarrow>
          if length (buckets d) \<le> index then Inl IndexError
          else
            (case position (key_eq ops) key (buckets d ! index) of
               Some i \<Rightarrow>
                 Inr (d\<lparr>buckets := (buckets d)[index := take i (buckets d ! index) @
                                                          drop (Suc i) (buckets d ! index)],
                        size' := size' d - 1\<rparr>)
             | None \<Rightarrow> Inl KeyError))"

definition get :: "'a key_ops \<Rightarrow> ('a, 'v) CustomDictionary \<Rightarrow> 'a key \<Rightarrow> 'v \<Rightarrow> error + 'v" where
  "get ops d key default_value =
     (case getitem ops d key of
        Inr val \<Rightarrow> Inr val
      | Inl e \<Rightarrow> if e = KeyError then Inr default_value else Inl e)"

definition clear :: "('a, 'v) CustomDictionary \<Rightarrow> ('a, 'v) CustomDictionary" where
  "clear d = d\<lparr>buckets := replicate (capacity d) [], size' := 0\<rparr>"

definition items :: "('a, 'v) CustomDictionary \<Rightarrow> ('a key \<times> 'v) list" where
  "items d = concat (buckets d)"

definition keys :: "('a, 'v) CustomDictionary \<Rightarrow> 'a key list" where
  "keys d = map fst (items d)"

definition values_of :: "('a, 'v) CustomDictionary \<Rightarrow> 'v list" where
  "values_of d = map snd (items d)"

definition len :: "('a, 'v) CustomDictionary \<Rightarrow> int" where
  "len d = size' d"

definition contains :: "'a key_ops \<Rightarrow> ('a, 'v) CustomDictionary \<Rightarrow> 'a key \<Rightarrow> error + bool" where
  "contains ops d key =
     (case getitem ops d key of
        Inr val \<Rightarrow> Inr True
      | Inl e \<Rightarrow> if e = KeyError then Inr False else Inl e)"


section \<open>The representation invariant and the observable mapping\<close>

text \<open>
  \<open>placed\<close>: every entry lies in the bucket that \<^verbatim>\<open>_hash\<close> computes for its key
  with the current capacity. \<open>invar\<close> adds that the bucket array has \<open>capacity\<close>
  buckets, that \<open>size'\<close> counts the entries and that no bucket holds a key twice.
  \<open>mapping_of\<close> is the key/value mapping a caller observes.
\<close>

definition placed :: "'a key_ops \<Rightarrow> ('a, 'v) CustomDictionary \<Rightarrow> bool" where
  "placed ops d =
     (\<forall>i < length (buckets d). \<forall>e \<in> set (buckets d ! i). hash_key ops d (fst e) = Inr i)"

definition equality_keys :: "'a key_ops \<Rightarrow> bool" where
  "equality_keys ops = (\<forall>x y. py_eq ops x y = (x = y))"

definition counted :: "'a key_ops \<Rightarrow> ('a, 'v) CustomDictionary \<Rightarrow> bool" where
  "counted ops d =
     (0 < capacity d \<and> length (buckets d) = capacity d \<and> size' d = int (entries d) \<and>
      placed ops d)"

definition invar :: "'a key_ops \<Rightarrow> ('a, 'v) CustomDictionary \<Rightarrow> bool" where
  "invar ops d =
     (equality_keys ops \<and>
      0 < capacity d \<and> length (buckets d) = capacity d \<and> size' d = int (entries d) \<and>
      (\<forall>i < length (buckets d). distinct (map fst (buckets d ! i))) \<and> placed ops d)"

definition mapping_of :: "('a, 'v) CustomDictionary \<Rightarrow> 'a key \<Rightarrow> 'v option" where
  "mapping_of d = map_of (items d)"

lemma invar_counted: "invar ops d \<Longrightarrow> counted ops d"
  by (simp add: invar_def counted_def)

lemma key_eq_equality: "equality_keys ops \<Longrightarrow> key_eq ops a b = (a = b)"
  by (auto simp: key_eq_def equality_keys_def split: key.splits)

lemma position_less: "position eq key bucket = Some i \<Longrightarrow> i < length bucket"
proof (induction bucket arbitrary: i)
  case Nil
  then show ?case by simp
next
  case (Cons e bucket)
  then show ?case by (cases e) (auto split: if_splits)
qed

lemma scan_None_position: "(scan eq key bucket = None) = (position eq key bucket = None)"
  by (induction bucket) (auto split: if_splits)

lemma scan_map_of: "equality_keys ops \<Longrightarrow> scan (key_eq ops) key bucket = map_of bucket key"
  by (induction bucket) (auto simp: key_eq_equality)

lemma position_None:
  "equality_keys ops \<Longrightarrow>
     (position (key_eq ops) key bucket = None) = (key \<notin> fst ` set bucket)"
  by (induction bucket) (auto simp: key_eq_equality split: if_splits)

lemma position_Some:
  "equality_keys ops \<Longrightarrow> position (key_eq ops) key bucket = Some i \<Longrightarrow>
     i < length bucket \<and> fst (bucket ! i) = key"
proof (induction bucket arbitrary: i)
  case Nil
  then show ?case by simp
next
  case (Cons e bucket)
  then show ?case by (cases e) (auto simp: key_eq_equality split: if_splits)
qed

lemma foldl_mod_less: "0 < m \<Longrightarrow> h < m \<Longrightarrow> foldl (\<lambda>hash_value char. (hash_value * p + ord char) mod m) h s < (m::nat)"
  by (induction s arbitrary: h) auto

lemma hash_key_less:
  "0 < capacity d \<Longrightarrow> \<exists>i. hash_key ops d key = Inr i \<and> i < capacity d"
proof (cases key)
  case (Str s)
  assume "0 < capacity d"
  then show ?thesis using Str foldl_mod_less[of "capacity d" 0 31 s]
    by (simp add: hash_key_def)
next
  case (Other x)
  assume c: "0 < capacity d"
  then have "py_hash ops x mod int (capacity d) < int (capacity d)" by simp
  moreover from c have "0 \<le> py_hash ops x mod int (capacity d)" by simp
  ultimately have "nat (py_hash ops x mod int (capacity d)) < capacity d" by linarith
  with c Other show ?thesis by (simp add: hash_key_def)
qed

lemma hash_key_capacity:
  "capacity d' = capacity d \<Longrightarrow> hash_key ops d' key = hash_key ops d key"
  by (simp add: hash_key_def split: key.splits)

lemma map_of_concat_bucket:
  "i < length xss \<Longrightarrow> \<forall>j < length xss. j \<noteq> i \<longrightarrow> k \<notin> fst ` set (xss ! j) \<Longrightarrow>
     map_of (concat xss) k = map_of (xss ! i) k"
proof (induction xss arbitrary: i rule: rev_induct)
  case Nil
  then show ?case by simp
next
  case (snoc xs xss)
  show ?case
  proof (cases "i = length xss")
    case True
    have "\<forall>j < length xss. k \<notin> fst ` set (xss ! j)"
    proof (intro allI impI)
      fix j assume j: "j < length xss"
      with snoc.prems(2) True have "k \<notin> fst ` set ((xss @ [xs]) ! j)" by simp
      with j show "k \<notin> fst ` set (xss ! j)" by (simp add: nth_append)
    qed
    then have "k \<notin> fst ` set (concat xss)"
    proof -
      assume a: "\<forall>j < length xss. k \<notin> fst ` set (xss ! j)"
      show ?thesis
      proof
        assume "k \<in> fst ` set (concat xss)"
        then obtain ys where "ys \<in> set xss" "k \<in> fst ` set ys" by auto
        then obtain j where "j < length xss" "xss ! j = ys" "k \<in> fst ` set ys"
          by (auto simp: in_set_conv_nth)
        with a show False by auto
      qed
    qed
    then have "map_of (concat xss) k = None" by (simp add: map_of_eq_None_iff)
    with True show ?thesis by (simp add: map_add_def)
  next
    case False
    with snoc.prems have i: "i < length xss" by simp
    from snoc.prems(2)[rule_format, of "length xss"] False have "k \<notin> fst ` set xs"
      by simp
    then have n: "map_of xs k = None" by (simp add: map_of_eq_None_iff)
    have "\<forall>j < length xss. j \<noteq> i \<longrightarrow> k \<notin> fst ` set (xss ! j)"
    proof (intro allI impI)
      fix j assume j: "j < length xss" "j \<noteq> i"
      with snoc.prems(2) have "k \<notin> fst ` set ((xss @ [xs]) ! j)" by simp
      with j show "k \<notin> fst ` set (xss ! j)" by (simp add: nth_append)
    qed
    from snoc.IH[OF i this] n i show ?thesis
      by (simp add: map_add_def nth_append split: option.splits)
  qed
qed

lemma placed_other_bucket:
  assumes "placed ops d" "hash_key ops d k = Inr i" "j < length (buckets d)" "j \<noteq> i"
  shows "k \<notin> fst ` set (buckets d ! j)"
proof
  assume "k \<in> fst ` set (buckets d ! j)"
  then obtain e where "e \<in> set (buckets d ! j)" "fst e = k" by auto
  with assms(1,3) have "hash_key ops d k = Inr j" by (auto simp: placed_def)
  with assms(2,4) show False by simp
qed

lemma mapping_of_bucket:
  assumes "placed ops d" "hash_key ops d k = Inr i" "i < length (buckets d)"
  shows "mapping_of d k = map_of (buckets d ! i) k"
  unfolding mapping_of_def items_def
  using assms placed_other_bucket[OF assms(1,2)]
  by (intro map_of_concat_bucket) auto

lemma getitem_mapping:
  assumes "invar ops d"
  shows "getitem ops d k = (case mapping_of d k of Some v \<Rightarrow> Inr v | None \<Rightarrow> Inl KeyError)"
proof -
  from assms have c: "0 < capacity d" and l: "length (buckets d) = capacity d"
    and p: "placed ops d" and eqk: "equality_keys ops" by (simp_all add: invar_def)
  from hash_key_less[OF c] obtain i where i: "hash_key ops d k = Inr i" "i < capacity d" by blast
  with l mapping_of_bucket[OF p i(1)] show ?thesis
    by (simp add: getitem_def scan_map_of[OF eqk])
qed


lemma concat_replicate_Nil: "concat (replicate n []) = []"
  by (induction n) auto

lemma invar_init: "equality_keys ops \<Longrightarrow> 0 < c \<Longrightarrow> invar ops (init c)"
  by (simp add: invar_def init_def entries_def placed_def concat_replicate_Nil)

lemma mapping_of_init: "mapping_of (init c) = Map.empty"
  by (simp add: mapping_of_def items_def init_def concat_replicate_Nil)

lemma invar_clear: "invar ops d \<Longrightarrow> invar ops (clear d)"
  by (simp add: invar_def clear_def entries_def placed_def concat_replicate_Nil)

lemma mapping_of_clear: "mapping_of (clear d) = Map.empty"
  by (simp add: mapping_of_def items_def clear_def concat_replicate_Nil)

lemma distinct_concat_placed:
  "\<forall>i < length xss. distinct (map fst (xss ! i)) \<Longrightarrow>
   \<forall>i < length xss. \<forall>e \<in> set (xss ! i). G (fst e) = (Inr i :: error + nat) \<Longrightarrow>
     distinct (map fst (concat xss))"
proof (induction xss rule: rev_induct)
  case Nil
  then show ?case by simp
next
  case (snoc xs xss)
  have d1: "\<forall>i < length xss. distinct (map fst (xss ! i))"
  proof (intro allI impI)
    fix i assume i: "i < length xss"
    with snoc.prems(1) have "distinct (map fst ((xss @ [xs]) ! i))" by simp
    with i show "distinct (map fst (xss ! i))" by (simp add: nth_append)
  qed
  have p1: "\<forall>i < length xss. \<forall>e \<in> set (xss ! i). G (fst e) = Inr i"
  proof (intro allI impI)
    fix i assume i: "i < length xss"
    with snoc.prems(2) have "\<forall>e \<in> set ((xss @ [xs]) ! i). G (fst e) = Inr i" by simp
    with i show "\<forall>e \<in> set (xss ! i). G (fst e) = Inr i" by (simp add: nth_append)
  qed
  from snoc.prems(1)[rule_format, of "length xss"] have dx: "distinct (map fst xs)"
    by simp
  from snoc.prems(2)[rule_format, of "length xss"]
  have px: "\<forall>e \<in> set xs. G (fst e) = Inr (length xss)"
    by simp
  have "fst ` set (concat xss) \<inter> fst ` set xs = {}"
  proof (rule ccontr)
    assume "fst ` set (concat xss) \<inter> fst ` set xs \<noteq> {}"
    then obtain x where "x \<in> fst ` set (concat xss)" "x \<in> fst ` set xs" by blast
    then obtain e e' where e: "e \<in> set (concat xss)" "e' \<in> set xs" "fst e = fst e'"
      by (elim imageE) simp
    from e(1) obtain ys where "ys \<in> set xss" "e \<in> set ys" by auto
    then obtain i where "i < length xss" "e \<in> set (xss ! i)" by (auto simp: in_set_conv_nth)
    with p1 have "G (fst e) = Inr i" "i < length xss" by auto
    moreover from px e(2) have "G (fst e') = Inr (length xss)" by simp
    ultimately show False using e(3) by simp
  qed
  with snoc.IH[OF d1 p1] dx show ?case by simp
qed

lemma invar_distinct: "invar ops d \<Longrightarrow> distinct (map fst (items d))"
  unfolding items_def
  by (rule distinct_concat_placed[where G = "hash_key ops d"]) (simp_all add: invar_def placed_def)

lemma bucket_update:
  assumes inv: "invar ops d" and h: "hash_key ops d k = Inr i"
    and cap: "capacity d' = capacity d"
    and bs: "buckets d' = (buckets d)[i := b']"
    and sz: "size' d' = size' d + int (length b') - int (length (buckets d ! i))"
    and dist: "distinct (map fst b')"
    and sub: "fst ` set b' \<subseteq> insert k (fst ` set (buckets d ! i))"
  shows "invar ops d'"
    and "mapping_of d' k' = (if hash_key ops d k' = Inr i then map_of b' k' else mapping_of d k')"
proof -
  from inv have c: "0 < capacity d" and l: "length (buckets d) = capacity d"
    and s: "size' d = int (entries d)" and p: "placed ops d"
    and di: "\<forall>j < length (buckets d). distinct (map fst (buckets d ! j))"
    by (simp_all add: invar_def)
  from hash_key_less[OF c, of ops k] h l have i: "i < length (buckets d)" by simp
  have hk: "\<And>x. hash_key ops d' x = hash_key ops d x"
    by (rule hash_key_capacity[OF cap])
  have "entries d' + length (buckets d ! i) = entries d + length b'"
    using length_concat_update[OF i, of b'] by (simp add: entries_def bs)
  with sz s have s': "size' d' = int (entries d')" by linarith
  have p': "placed ops d'"
    unfolding placed_def
  proof (intro allI impI ballI)
    fix j e assume j: "j < length (buckets d')" and e: "e \<in> set (buckets d' ! j)"
    show "hash_key ops d' (fst e) = Inr j"
    proof (cases "j = i")
      case True
      with e i bs have "fst e \<in> insert k (fst ` set (buckets d ! i))" using sub by auto
      then have "fst e = k \<or> (\<exists>e' \<in> set (buckets d ! i). fst e' = fst e)" by force
      then show ?thesis
      proof (elim disjE bexE)
        assume "fst e = k"
        with h True show ?thesis by (simp add: hk)
      next
        fix e' assume e': "e' \<in> set (buckets d ! i)" and fe: "fst e' = fst e"
        from p i e' have "hash_key ops d (fst e') = Inr i" unfolding placed_def by blast
        with fe True show ?thesis by (simp add: hk)
      qed
    next
      case False
      with e j bs p show ?thesis by (auto simp: hk placed_def)
    qed
  qed
  have d': "\<forall>j < length (buckets d'). distinct (map fst (buckets d' ! j))"
  proof (intro allI impI)
    fix j assume j: "j < length (buckets d')"
    show "distinct (map fst (buckets d' ! j))"
    proof (cases "j = i")
      case True
      with i dist bs show ?thesis by simp
    next
      case False
      with j di bs show ?thesis by simp
    qed
  qed
  from inv have "equality_keys ops" by (simp add: invar_def)
  with c l s' p' d' cap bs show inv': "invar ops d'" by (simp add: invar_def)
  from hash_key_less[OF c, of ops k'] obtain i' where
    i': "hash_key ops d k' = Inr i'" "i' < capacity d" by blast
  have "mapping_of d' k' = map_of (buckets d' ! i') k'"
    using i' l bs by (intro mapping_of_bucket[OF p']) (simp_all add: hk)
  moreover have "mapping_of d k' = map_of (buckets d ! i') k'"
    using i' l by (intro mapping_of_bucket[OF p]) simp_all
  ultimately show "mapping_of d' k' =
      (if hash_key ops d k' = Inr i then map_of b' k' else mapping_of d k')"
    using i' i l bs by (auto simp: nth_list_update)
qed


lemma map_of_replace:
  "distinct (map fst b) \<Longrightarrow> j < length b \<Longrightarrow> fst (b ! j) = k \<Longrightarrow>
     map_of (b[j := (k, v)]) = (map_of b)(k \<mapsto> v)"
proof (induction b arbitrary: j)
  case Nil
  then show ?case by simp
next
  case (Cons e b)
  show ?case
  proof (cases j)
    case 0
    with Cons.prems show ?thesis by (cases e) auto
  next
    case (Suc j')
    with Cons.prems have "map_of (b[j' := (k, v)]) = (map_of b)(k \<mapsto> v)"
      by (intro Cons.IH) auto
    moreover have "fst e \<noteq> k"
    proof -
      from Suc Cons.prems have "j' < length b" "fst (b ! j') = k" by simp_all
      then have "k \<in> fst ` set b" using nth_mem[of j' b] by (metis imageI)
      moreover from Cons.prems(1) have "fst e \<notin> fst ` set b" by simp
      ultimately show ?thesis by auto
    qed
    ultimately show ?thesis using Suc by (cases e) (auto simp: fun_upd_twist)
  qed
qed

lemma map_fst_replace:
  "j < length b \<Longrightarrow> fst (b ! j) = k \<Longrightarrow> map fst (b[j := (k, v)]) = map fst b"
  by (simp add: map_update list_update_same_conv)

lemma map_of_snoc:
  "k \<notin> fst ` set b \<Longrightarrow> map_of (b @ [(k, v)]) = (map_of b)(k \<mapsto> v)"
  by (induction b) (auto simp: fun_upd_twist)

lemma map_of_remove:
  "distinct (map fst b) \<Longrightarrow> j < length b \<Longrightarrow> fst (b ! j) = k \<Longrightarrow>
     map_of (take j b @ drop (Suc j) b) = (map_of b)(k := None)"
proof (induction b arbitrary: j)
  case Nil
  then show ?case by simp
next
  case (Cons e b)
  show ?case
  proof (cases j)
    case 0
    with Cons.prems have "k \<notin> fst ` set b" by (cases e) auto
    then have "map_of b k = None" by (simp add: map_of_eq_None_iff)
    with 0 Cons.prems show ?thesis by (cases e) auto
  next
    case (Suc j')
    with Cons.prems have "map_of (take j' b @ drop (Suc j') b) = (map_of b)(k := None)"
      by (intro Cons.IH) auto
    moreover have "fst e \<noteq> k"
    proof -
      from Suc Cons.prems have "j' < length b" "fst (b ! j') = k" by simp_all
      then have "k \<in> fst ` set b" using nth_mem[of j' b] by (metis imageI)
      moreover from Cons.prems(1) have "fst e \<notin> fst ` set b" by simp
      ultimately show ?thesis by auto
    qed
    ultimately show ?thesis using Suc by (cases e) (auto simp: fun_upd_twist)
  qed
qed


lemma bucket_update_mapping:
  assumes inv: "invar ops d" and h: "hash_key ops d k = Inr i"
    and cap: "capacity d' = capacity d"
    and bs: "buckets d' = (buckets d)[i := b']"
    and sz: "size' d' = size' d + int (length b') - int (length (buckets d ! i))"
    and dist: "distinct (map fst b')"
    and sub: "fst ` set b' \<subseteq> insert k (fst ` set (buckets d ! i))"
    and m: "map_of b' = (map_of (buckets d ! i))(k := r)"
  shows "mapping_of d' = (mapping_of d)(k := r)"
proof
  fix k'
  from inv have c: "0 < capacity d" and l: "length (buckets d) = capacity d"
    and p: "placed ops d" by (simp_all add: invar_def)
  from hash_key_less[OF c, of ops k] h l have i: "i < length (buckets d)" by simp
  note u = bucket_update(2)[OF inv h cap bs sz dist sub, of k']
  show "mapping_of d' k' = ((mapping_of d)(k := r)) k'"
  proof (cases "hash_key ops d k' = Inr i")
    case True
    from mapping_of_bucket[OF p True i] have "mapping_of d k' = map_of (buckets d ! i) k'" .
    with u True m show ?thesis by simp
  next
    case False
    with h have "k' \<noteq> k" by auto
    with u False show ?thesis by simp
  qed
qed

lemma invar_equality: "invar ops d \<Longrightarrow> equality_keys ops"
  by (simp add: invar_def)

lemma invar_index:
  "invar ops d \<Longrightarrow> hash_key ops d k = Inr i \<Longrightarrow>
     i < length (buckets d) \<and> distinct (map fst (buckets d ! i))"
  using hash_key_less[of d ops k] by (auto simp: invar_def)

lemma invar_replace:
  assumes inv: "invar ops d" and h: "hash_key ops d k = Inr i"
    and pos: "position (key_eq ops) k (buckets d ! i) = Some j"
  shows "invar ops (d\<lparr>buckets := (buckets d)[i := (buckets d ! i)[j := (k, v)]]\<rparr>)"
    and "mapping_of (d\<lparr>buckets := (buckets d)[i := (buckets d ! i)[j := (k, v)]]\<rparr>) =
           (mapping_of d)(k \<mapsto> v)"
proof -
  let ?b = "buckets d ! i"
  let ?d' = "d\<lparr>buckets := (buckets d)[i := ?b[j := (k, v)]]\<rparr>"
  from invar_index[OF inv h] have i: "i < length (buckets d)"
    and di: "distinct (map fst ?b)" by simp_all
  from position_Some[OF invar_equality[OF inv] pos] have j: "j < length ?b" "fst (?b ! j) = k" by simp_all
  have cap: "capacity ?d' = capacity d" by simp
  have bs: "buckets ?d' = (buckets d)[i := ?b[j := (k, v)]]" by simp
  have sz: "size' ?d' = size' d + int (length (?b[j := (k, v)])) - int (length ?b)" by simp
  have dist: "distinct (map fst (?b[j := (k, v)]))"
    using di by (simp add: map_fst_replace[OF j])
  have sub: "fst ` set (?b[j := (k, v)]) \<subseteq> insert k (fst ` set ?b)"
    using set_update_subset_insert[of ?b j "(k, v)"] by auto
  show "invar ops ?d'" by (rule bucket_update(1)[OF inv h cap bs sz dist sub])
  show "mapping_of ?d' = (mapping_of d)(k \<mapsto> v)"
    by (rule bucket_update_mapping[OF inv h cap bs sz dist sub])
       (rule map_of_replace[OF di j])
qed

lemma invar_append:
  assumes inv: "invar ops d" and h: "hash_key ops d k = Inr i"
    and pos: "position (key_eq ops) k (buckets d ! i) = None"
  shows "invar ops (d\<lparr>buckets := (buckets d)[i := buckets d ! i @ [(k, v)]],
                        size' := size' d + 1\<rparr>)"
    and "mapping_of (d\<lparr>buckets := (buckets d)[i := buckets d ! i @ [(k, v)]],
                        size' := size' d + 1\<rparr>) = (mapping_of d)(k \<mapsto> v)"
proof -
  let ?b = "buckets d ! i"
  let ?d' = "d\<lparr>buckets := (buckets d)[i := ?b @ [(k, v)]], size' := size' d + 1\<rparr>"
  from invar_index[OF inv h] have i: "i < length (buckets d)"
    and di: "distinct (map fst ?b)" by simp_all
  from pos have nk: "k \<notin> fst ` set ?b" by (simp add: position_None[OF invar_equality[OF inv]])
  have cap: "capacity ?d' = capacity d" by simp
  have bs: "buckets ?d' = (buckets d)[i := ?b @ [(k, v)]]" by simp
  have sz: "size' ?d' = size' d + int (length (?b @ [(k, v)])) - int (length ?b)" by simp
  have dist: "distinct (map fst (?b @ [(k, v)]))" using di nk by simp
  have sub: "fst ` set (?b @ [(k, v)]) \<subseteq> insert k (fst ` set ?b)" by auto
  show "invar ops ?d'" by (rule bucket_update(1)[OF inv h cap bs sz dist sub])
  show "mapping_of ?d' = (mapping_of d)(k \<mapsto> v)"
    by (rule bucket_update_mapping[OF inv h cap bs sz dist sub])
       (rule map_of_snoc[OF nk])
qed

lemma invar_remove:
  assumes inv: "invar ops d" and h: "hash_key ops d k = Inr i"
    and pos: "position (key_eq ops) k (buckets d ! i) = Some j"
  shows "invar ops (d\<lparr>buckets := (buckets d)[i := take j (buckets d ! i) @
                                                      drop (Suc j) (buckets d ! i)],
                        size' := size' d - 1\<rparr>)"
    and "mapping_of (d\<lparr>buckets := (buckets d)[i := take j (buckets d ! i) @
                                                      drop (Suc j) (buckets d ! i)],
                        size' := size' d - 1\<rparr>) = (mapping_of d)(k := None)"
proof -
  let ?b = "buckets d ! i"
  let ?b' = "take j ?b @ drop (Suc j) ?b"
  let ?d' = "d\<lparr>buckets := (buckets d)[i := ?b'], size' := size' d - 1\<rparr>"
  from invar_index[OF inv h] have i: "i < length (buckets d)"
    and di: "distinct (map fst ?b)" by simp_all
  from position_Some[OF invar_equality[OF inv] pos] have j: "j < length ?b" "fst (?b ! j) = k" by simp_all
  have cap: "capacity ?d' = capacity d" by simp
  have bs: "buckets ?d' = (buckets d)[i := ?b']" by simp
  have sz: "size' ?d' = size' d + int (length ?b') - int (length ?b)" using j by simp
  have dist: "distinct (map fst ?b')"
  proof -
    have "?b = take j ?b @ ?b ! j # drop (Suc j) ?b" using j(1) by (rule id_take_nth_drop)
    then have "distinct (map fst (take j ?b @ ?b ! j # drop (Suc j) ?b))" using di by simp
    then show ?thesis by auto
  qed
  have sub: "fst ` set ?b' \<subseteq> insert k (fst ` set ?b)"
    by (auto dest: in_set_takeD in_set_dropD)
  show "invar ops ?d'" by (rule bucket_update(1)[OF inv h cap bs sz dist sub])
  show "mapping_of ?d' = (mapping_of d)(k := None)"
    by (rule bucket_update_mapping[OF inv h cap bs sz dist sub])
       (rule map_of_remove[OF di j])
qed


definition store :: "('k \<rightharpoonup> 'v) \<Rightarrow> 'k \<times> 'v \<Rightarrow> ('k \<rightharpoonup> 'v)" where
  "store m e = m(fst e \<mapsto> snd e)"

lemma foldl_store_distinct:
  "distinct (map fst xs) \<Longrightarrow> foldl store m xs = m ++ map_of xs"
proof (induction xs arbitrary: m)
  case Nil
  then show ?case by simp
next
  case (Cons e xs)
  from Cons.prems have nd: "fst e \<notin> dom (map_of xs)" and dx: "distinct (map fst xs)"
    by (simp_all add: dom_map_of_conv_image_fst)
  have "foldl store m (e # xs) = foldl store (m(fst e \<mapsto> snd e)) xs"
    by (simp add: store_def)
  also have "\<dots> = m(fst e \<mapsto> snd e) ++ map_of xs"
    by (rule Cons.IH[OF dx])
  also have "\<dots> = (m ++ map_of xs)(fst e \<mapsto> snd e)"
    using nd by (rule map_add_upd_left)
  also have "\<dots> = m ++ (map_of xs)(fst e \<mapsto> snd e)"
    by (rule map_add_upd[symmetric])
  also have "(map_of xs)(fst e \<mapsto> snd e) = map_of (e # xs)"
    by (cases e) simp
  finally show ?case .
qed

lemma dom_foldl_store: "dom (foldl store m xs) = dom m \<union> fst ` set xs"
  by (induction xs arbitrary: m) (auto simp: store_def)

lemma invar_fresh:
  "equality_keys ops \<Longrightarrow> 0 < capacity d \<Longrightarrow>
     invar ops (d\<lparr>capacity := capacity d * 2, buckets := replicate (capacity d * 2) [],
                     size' := 0\<rparr>)"
  by (simp add: invar_def entries_def placed_def concat_replicate_Nil)

lemma mapping_of_fresh:
  "mapping_of (d\<lparr>capacity := c, buckets := replicate n [], size' := 0\<rparr>) = Map.empty"
  by (simp add: mapping_of_def items_def concat_replicate_Nil)

lemma setitem_resize_rehash_correct:
  "invar ops d \<longrightarrow>
     (\<exists>d'. setitem ops d key val = Inr d' \<and> invar ops d' \<and>
           mapping_of d' = (mapping_of d)(key \<mapsto> val) \<and> capacity d \<le> capacity d')"
  "equality_keys ops \<and> 0 < capacity d \<longrightarrow>
     (\<exists>d'. resize ops d = Inr d' \<and> invar ops d' \<and>
           mapping_of d' = foldl store Map.empty (concat (buckets d)) \<and>
           capacity d < capacity d')"
  "invar ops d \<longrightarrow>
     (\<exists>d'. rehash ops d old_buckets = Inr d' \<and> invar ops d' \<and>
           mapping_of d' = foldl store (mapping_of d) (concat old_buckets) \<and>
           capacity d \<le> capacity d')"
proof (induction ops d key val and ops d and ops d old_buckets
       rule: setitem_resize_rehash.induct)
  case (1 ops d key val)
  show ?case
  proof
    assume inv: "invar ops d"
    then have c: "0 < capacity d" by (simp add: invar_def)
    from hash_key_less[OF c] obtain i where h: "hash_key ops d key = Inr i" by blast
    from invar_index[OF inv h] have i: "\<not> length (buckets d) \<le> i" by simp
    show "\<exists>d'. setitem ops d key val = Inr d' \<and> invar ops d' \<and>
           mapping_of d' = (mapping_of d)(key \<mapsto> val) \<and> capacity d \<le> capacity d'"
    proof (cases "position (key_eq ops) key (buckets d ! i)")
      case (Some j)
      with h i invar_replace[OF inv h Some, of val] show ?thesis
        by (simp add: setitem.simps)
    next
      case None
      let ?d1 = "d\<lparr>buckets := (buckets d)[i := buckets d ! i @ [(key, val)]],
                     size' := size' d + 1\<rparr>"
      note a = invar_append[OF inv h None, of val]
      show ?thesis
      proof (cases "load_factor_threshold \<le> real_of_int (size' d + 1) / real (capacity d)")
        case True
        from c invar_equality[OF inv] have c1: "equality_keys ops \<and> 0 < capacity ?d1" by simp
        from "1.IH"[OF h i None _ True] c c1 obtain d' where
          r: "resize ops ?d1 = Inr d'" "invar ops d'"
             "mapping_of d' = foldl store Map.empty (concat (buckets ?d1))"
             "capacity ?d1 < capacity d'"
          by auto
        from invar_distinct[OF a(1)] have "distinct (map fst (concat (buckets ?d1)))"
          by (simp add: items_def)
        from foldl_store_distinct[OF this, of Map.empty] r(3)
        have "mapping_of d' = mapping_of ?d1" by (simp add: mapping_of_def items_def)
        with a(2) r h i None c True show ?thesis by (simp add: setitem.simps)
      next
        case False
        with h i None c a show ?thesis by (simp add: setitem.simps)
      qed
    qed
  qed
next
  case (2 ops d)
  show ?case
  proof
    assume a: "equality_keys ops \<and> 0 < capacity d"
    then have c: "0 < capacity d" and eqk: "equality_keys ops" by simp_all
    from "2.IH" invar_fresh[OF eqk c] show "\<exists>d'. resize ops d = Inr d' \<and> invar ops d' \<and>
           mapping_of d' = foldl store Map.empty (concat (buckets d)) \<and>
           capacity d < capacity d'"
      using c by (auto simp: resize.simps mapping_of_fresh)
  qed
next
  case (3 ops d)
  show ?case by simp
next
  case (4 ops d old_buckets)
  then show ?case by simp
next
  case (5 ops d key val bucket old_buckets)
  show ?case
  proof
    assume inv: "invar ops d"
    with "5.IH"(1) obtain d1 where s: "setitem ops d key val = Inr d1" "invar ops d1"
      "mapping_of d1 = (mapping_of d)(key \<mapsto> val)" "capacity d \<le> capacity d1" by blast
    from "5.IH"(2)[OF s(1)] s(2) obtain d' where
      r: "rehash ops d1 (bucket # old_buckets) = Inr d'" "invar ops d'"
         "mapping_of d' = foldl store (mapping_of d1) (concat (bucket # old_buckets))"
         "capacity d1 \<le> capacity d'" by blast
    with s show "\<exists>d'. rehash ops d (((key, val) # bucket) # old_buckets) = Inr d' \<and>
           invar ops d' \<and>
           mapping_of d' = foldl store (mapping_of d) (concat (((key, val) # bucket) # old_buckets)) \<and>
           capacity d \<le> capacity d'"
      by (simp add: store_def)
  qed
qed


datatype ('a, 'v) operation = Set "'a key" 'v | Delete "'a key" | Clear | Resize

fun apply_op :: "'a key_ops \<Rightarrow> ('a, 'v) CustomDictionary \<Rightarrow> ('a, 'v) operation \<Rightarrow>
    error + ('a, 'v) CustomDictionary" where
  "apply_op ops d (Set key val) = setitem ops d key val"
| "apply_op ops d (Delete key) = delitem ops d key"
| "apply_op ops d Clear = Inr (clear d)"
| "apply_op ops d Resize = resize ops d"

fun run :: "'a key_ops \<Rightarrow> ('a, 'v) CustomDictionary \<Rightarrow> ('a, 'v) operation list \<Rightarrow>
    error + ('a, 'v) CustomDictionary" where
  "run ops d [] = Inr d"
| "run ops d (operation # operations) =
     (case apply_op ops d operation of
        Inl e \<Rightarrow> Inl e
      | Inr d' \<Rightarrow> run ops d' operations)"



text \<open>
  Two instances of the key operations for the examples: Python integers (\<^verbatim>\<open>hash(n)\<close>
  is \<open>n\<close> for the small non-negative integers used, \<^verbatim>\<open>==\<close> is equality), and a
  float NaN, which is \<^verbatim>\<open>==\<close> to nothing, not even to itself.
\<close>

definition int_keys :: "int key_ops" where
  "int_keys = \<lparr>py_hash = (\<lambda>x. x), py_eq = (\<lambda>x y. x = y)\<rparr>"

definition nan_keys :: "unit key_ops" where
  "nan_keys = \<lparr>py_hash = (\<lambda>x. 0), py_eq = (\<lambda>x y. False)\<rparr>"

lemma equality_int_keys: "equality_keys int_keys"
  by (simp add: equality_keys_def int_keys_def)

definition load_ok :: "('a, 'v) CustomDictionary \<Rightarrow> bool" where
  "load_ok d = (real_of_int (size' d) / real (capacity d) < load_factor_threshold)"

fun writes :: "'a key \<Rightarrow> ('a, 'v) operation \<Rightarrow> bool" where
  "writes key (Set k v) = (k = key)"
| "writes key (Delete k) = (k = key)"
| "writes key Clear = True"
| "writes key Resize = False"

lemma load_ok_iff: "0 < capacity d \<Longrightarrow> load_ok d = (4 * size' d < 3 * int (capacity d))"
  using threshold_iff[of "capacity d" "size' d"] by (auto simp: load_ok_def)

subsection \<open>What holds for every comparison of keys\<close>

lemma counted_init: "0 < c \<Longrightarrow> counted ops (init c)"
  by (simp add: counted_def init_def entries_def placed_def concat_replicate_Nil)

lemma counted_clear: "counted ops d \<Longrightarrow> counted ops (clear d)"
  by (simp add: counted_def clear_def entries_def placed_def concat_replicate_Nil)

lemma counted_fresh:
  "0 < capacity d \<Longrightarrow>
     counted ops (d\<lparr>capacity := capacity d * 2, buckets := replicate (capacity d * 2) [],
                     size' := 0\<rparr>)"
  by (simp add: counted_def entries_def placed_def concat_replicate_Nil)

lemma counted_index:
  "counted ops d \<Longrightarrow> hash_key ops d k = Inr i \<Longrightarrow> i < length (buckets d)"
  using hash_key_less[of d ops k] by (auto simp: counted_def)

lemma bucket_update_counted:
  assumes cnt: "counted ops d" and h: "hash_key ops d k = Inr i"
    and cap: "capacity d' = capacity d"
    and bs: "buckets d' = (buckets d)[i := b']"
    and sz: "size' d' = size' d + int (length b') - int (length (buckets d ! i))"
    and sub: "fst ` set b' \<subseteq> insert k (fst ` set (buckets d ! i))"
  shows "counted ops d'"
proof -
  from cnt have c: "0 < capacity d" and l: "length (buckets d) = capacity d"
    and s: "size' d = int (entries d)" and p: "placed ops d"
    by (simp_all add: counted_def)
  from counted_index[OF cnt h] have i: "i < length (buckets d)" .
  have hk: "\<And>x. hash_key ops d' x = hash_key ops d x"
    by (rule hash_key_capacity[OF cap])
  have "entries d' + length (buckets d ! i) = entries d + length b'"
    using length_concat_update[OF i, of b'] by (simp add: entries_def bs)
  with sz s have s': "size' d' = int (entries d')" by linarith
  have p': "placed ops d'"
    unfolding placed_def
  proof (intro allI impI ballI)
    fix j e assume j: "j < length (buckets d')" and e: "e \<in> set (buckets d' ! j)"
    show "hash_key ops d' (fst e) = Inr j"
    proof (cases "j = i")
      case True
      with e i bs have "fst e \<in> insert k (fst ` set (buckets d ! i))" using sub by auto
      then have "fst e = k \<or> (\<exists>e' \<in> set (buckets d ! i). fst e' = fst e)" by force
      then show ?thesis
      proof (elim disjE bexE)
        assume "fst e = k"
        with h True show ?thesis by (simp add: hk)
      next
        fix e' assume e': "e' \<in> set (buckets d ! i)" and fe: "fst e' = fst e"
        from p i e' have "hash_key ops d (fst e') = Inr i" unfolding placed_def by blast
        with fe True show ?thesis by (simp add: hk)
      qed
    next
      case False
      with e j bs p show ?thesis by (auto simp: hk placed_def)
    qed
  qed
  from c l s' p' cap bs show ?thesis by (simp add: counted_def)
qed

lemma counted_replace:
  assumes cnt: "counted ops d" and h: "hash_key ops d k = Inr i"
  shows "counted ops (d\<lparr>buckets := (buckets d)[i := (buckets d ! i)[j := (k, v)]]\<rparr>)"
proof (rule bucket_update_counted[OF cnt h])
  show "fst ` set ((buckets d ! i)[j := (k, v)]) \<subseteq> insert k (fst ` set (buckets d ! i))"
    using set_update_subset_insert[of "buckets d ! i" j "(k, v)"] by auto
qed simp_all

lemma counted_append:
  assumes cnt: "counted ops d" and h: "hash_key ops d k = Inr i"
  shows "counted ops (d\<lparr>buckets := (buckets d)[i := buckets d ! i @ [(k, v)]],
                         size' := size' d + 1\<rparr>)"
  by (rule bucket_update_counted[OF cnt h]) auto

lemma counted_remove:
  assumes cnt: "counted ops d" and h: "hash_key ops d k = Inr i"
    and j: "j < length (buckets d ! i)"
  shows "counted ops (d\<lparr>buckets := (buckets d)[i := take j (buckets d ! i) @
                                                      drop (Suc j) (buckets d ! i)],
                         size' := size' d - 1\<rparr>)"
proof (rule bucket_update_counted[OF cnt h])
  show "fst ` set (take j (buckets d ! i) @ drop (Suc j) (buckets d ! i))
          \<subseteq> insert k (fst ` set (buckets d ! i))"
    by (auto dest: in_set_takeD in_set_dropD)
  show "size' (d\<lparr>buckets := (buckets d)[i := take j (buckets d ! i) @
                                                      drop (Suc j) (buckets d ! i)],
                         size' := size' d - 1\<rparr>) =
        size' d + int (length (take j (buckets d ! i) @ drop (Suc j) (buckets d ! i))) -
        int (length (buckets d ! i))"
    using j by simp
qed simp_all

lemma setitem_resize_rehash_counted:
  "counted ops d \<longrightarrow>
     (\<exists>d'. setitem ops d key val = Inr d' \<and> counted ops d' \<and> capacity d \<le> capacity d')"
  "0 < capacity d \<longrightarrow>
     (\<exists>d'. resize ops d = Inr d' \<and> counted ops d' \<and> capacity d < capacity d')"
  "counted ops d \<longrightarrow>
     (\<exists>d'. rehash ops d old_buckets = Inr d' \<and> counted ops d' \<and> capacity d \<le> capacity d')"
proof (induction ops d key val and ops d and ops d old_buckets
       rule: setitem_resize_rehash.induct)
  case (1 ops d key val)
  show ?case
  proof
    assume cnt: "counted ops d"
    then have c: "0 < capacity d" by (simp add: counted_def)
    from hash_key_less[OF c] obtain i where h: "hash_key ops d key = Inr i" by blast
    from counted_index[OF cnt h] have i: "\<not> length (buckets d) \<le> i" by simp
    show "\<exists>d'. setitem ops d key val = Inr d' \<and> counted ops d' \<and> capacity d \<le> capacity d'"
    proof (cases "position (key_eq ops) key (buckets d ! i)")
      case (Some j)
      with h i counted_replace[OF cnt h, of j val] show ?thesis
        by (simp add: setitem.simps)
    next
      case None
      let ?d1 = "d\<lparr>buckets := (buckets d)[i := buckets d ! i @ [(key, val)]],
                     size' := size' d + 1\<rparr>"
      note a = counted_append[OF cnt h, of val]
      show ?thesis
      proof (cases "load_factor_threshold \<le> real_of_int (size' d + 1) / real (capacity d)")
        case True
        from c have c1: "0 < capacity ?d1" by simp
        from "1.IH"[OF h i None _ True] c c1 obtain d' where
          r: "resize ops ?d1 = Inr d'" "counted ops d'" "capacity ?d1 < capacity d'"
          by auto
        with h i None c True show ?thesis by (simp add: setitem.simps)
      next
        case False
        with h i None c a show ?thesis by (simp add: setitem.simps)
      qed
    qed
  qed
next
  case (2 ops d)
  show ?case
  proof
    assume c: "0 < capacity d"
    from "2.IH" counted_fresh[OF c, of ops]
    show "\<exists>d'. resize ops d = Inr d' \<and> counted ops d' \<and> capacity d < capacity d'"
      using c by (auto simp: resize.simps)
  qed
next
  case (3 ops d)
  show ?case by simp
next
  case (4 ops d old_buckets)
  then show ?case by simp
next
  case (5 ops d key val bucket old_buckets)
  show ?case
  proof
    assume cnt: "counted ops d"
    with "5.IH"(1) obtain d1 where s: "setitem ops d key val = Inr d1" "counted ops d1"
      "capacity d \<le> capacity d1" by blast
    from "5.IH"(2)[OF s(1)] s(2) obtain d' where
      r: "rehash ops d1 (bucket # old_buckets) = Inr d'" "counted ops d'"
         "capacity d1 \<le> capacity d'" by blast
    with s show "\<exists>d'. rehash ops d (((key, val) # bucket) # old_buckets) = Inr d' \<and>
           counted ops d' \<and> capacity d \<le> capacity d'"
      by simp
  qed
qed

lemma setitem_counted:
  assumes "counted ops d"
  shows "\<exists>d'. setitem ops d key val = Inr d' \<and> counted ops d'"
  using setitem_resize_rehash_counted(1)[of ops d key val] assms by blast

lemma rehash_counted:
  assumes "counted ops d"
  shows "\<exists>d'. rehash ops d old_buckets = Inr d' \<and> counted ops d'"
  using setitem_resize_rehash_counted(3)[of ops d old_buckets] assms by blast

lemma delitem_counted:
  assumes cnt: "counted ops d" and r: "delitem ops d key = Inr d'"
  shows "counted ops d' \<and> capacity d' = capacity d \<and> size' d' = size' d - 1"
proof -
  from cnt have c: "0 < capacity d" by (simp add: counted_def)
  from hash_key_less[OF c] obtain i where h: "hash_key ops d key = Inr i" by blast
  from counted_index[OF cnt h] have i: "\<not> length (buckets d) \<le> i" by simp
  from r h i obtain j where pos: "position (key_eq ops) key (buckets d ! i) = Some j"
    by (cases "position (key_eq ops) key (buckets d ! i)") (simp_all add: delitem_def)
  with r h i counted_remove[OF cnt h position_less[OF pos]] show ?thesis
    by (auto simp: delitem_def)
qed

lemma setitem_room:
  assumes cnt: "counted ops d" and room: "4 * (size' d + 1) < 3 * int (capacity d)"
  shows "\<exists>d'. setitem ops d key val = Inr d' \<and> capacity d' = capacity d \<and>
           size' d' \<le> size' d + 1"
proof -
  from cnt have c: "0 < capacity d" by (simp add: counted_def)
  from hash_key_less[OF c] obtain i where h: "hash_key ops d key = Inr i" by blast
  from counted_index[OF cnt h] have i: "\<not> length (buckets d) \<le> i" by simp
  from room c have t: "\<not> load_factor_threshold \<le> real_of_int (size' d + 1) / real (capacity d)"
    using threshold_iff[of "capacity d" "size' d + 1"] by simp
  show ?thesis
  proof (cases "position (key_eq ops) key (buckets d ! i)")
    case None
    with h i c t show ?thesis by (simp add: setitem.simps)
  next
    case (Some j)
    with h i show ?thesis by (simp add: setitem.simps)
  qed
qed

lemma rehash_room_step:
  assumes rest: "\<And>d. counted ops d \<Longrightarrow>
        4 * (size' d + int (length (concat old))) < 3 * int (capacity d) \<Longrightarrow>
        \<exists>d'. rehash ops d old = Inr d' \<and> capacity d' = capacity d \<and>
             size' d' \<le> size' d + int (length (concat old))"
  shows "counted ops d \<Longrightarrow>
        4 * (size' d + int (length (concat (bucket # old)))) < 3 * int (capacity d) \<Longrightarrow>
        \<exists>d'. rehash ops d (bucket # old) = Inr d' \<and> capacity d' = capacity d \<and>
             size' d' \<le> size' d + int (length (concat (bucket # old)))"
proof (induction bucket arbitrary: d)
  case Nil
  with rest[of d] show ?case by simp
next
  case (Cons e bucket)
  obtain key val where e: "e = (key, val)" by (cases e)
  from Cons.prems have room1: "4 * (size' d + 1) < 3 * int (capacity d)" by simp
  from setitem_room[OF Cons.prems(1) room1, of key val] obtain d1 where
    s: "setitem ops d key val = Inr d1" "capacity d1 = capacity d" "size' d1 \<le> size' d + 1"
    by blast
  from setitem_counted[OF Cons.prems(1), of key val] s(1) have cnt1: "counted ops d1" by simp
  from s Cons.prems(2)
  have "4 * (size' d1 + int (length (concat (bucket # old)))) < 3 * int (capacity d1)" by simp
  from Cons.IH[OF cnt1 this] obtain d' where
    r: "rehash ops d1 (bucket # old) = Inr d'" "capacity d' = capacity d1"
       "size' d' \<le> size' d1 + int (length (concat (bucket # old)))" by blast
  with s e show ?case by simp
qed

lemma rehash_room:
  "counted ops d \<Longrightarrow> 4 * (size' d + int (length (concat old))) < 3 * int (capacity d) \<Longrightarrow>
     \<exists>d'. rehash ops d old = Inr d' \<and> capacity d' = capacity d \<and>
          size' d' \<le> size' d + int (length (concat old))"
proof (induction old arbitrary: d)
  case Nil
  then show ?case by simp
next
  case (Cons bucket old)
  show ?case
  proof (rule rehash_room_step)
    fix d0 :: "('a, 'b) CustomDictionary"
    assume "counted ops d0"
      and "4 * (size' d0 + int (length (concat old))) < 3 * int (capacity d0)"
    then show "\<exists>d'. rehash ops d0 old = Inr d' \<and> capacity d' = capacity d0 \<and>
          size' d' \<le> size' d0 + int (length (concat old))"
      by (rule Cons.IH)
  next
    show "counted ops d" by (rule Cons.prems(1))
  next
    show "4 * (size' d + int (length (concat (bucket # old)))) < 3 * int (capacity d)"
      by (rule Cons.prems(2))
  qed
qed

lemma resize_load:
  assumes cnt: "counted ops d" and load: "4 * size' d < 3 * int (capacity d) + 4"
  shows "\<exists>d'. resize ops d = Inr d' \<and> counted ops d' \<and>
           capacity d' = 2 * capacity d \<and> 4 * size' d' < 3 * int (capacity d')"
proof -
  let ?d0 = "d\<lparr>capacity := capacity d * 2, buckets := replicate (capacity d * 2) [], size' := 0\<rparr>"
  from cnt have c: "0 < capacity d" and s: "size' d = int (length (concat (buckets d)))"
    by (simp_all add: counted_def entries_def)
  from c load have l6: "4 * size' d < 6 * int (capacity d)" by presburger
  with s have "4 * (size' ?d0 + int (length (concat (buckets d)))) < 3 * int (capacity ?d0)"
    by simp
  from rehash_room[OF counted_fresh[OF c] this] obtain d' where
    r: "rehash ops ?d0 (buckets d) = Inr d'" "capacity d' = capacity ?d0"
       "size' d' \<le> size' ?d0 + int (length (concat (buckets d)))" by blast
  from rehash_counted[OF counted_fresh[OF c], of ops "buckets d"] r(1)
  have "counted ops d'" by simp
  moreover from r(2) have "capacity d' = 2 * capacity d" by simp
  moreover from r(2,3) s l6 have "4 * size' d' < 3 * int (capacity d')" by simp
  ultimately show ?thesis using r(1) by (simp add: resize.simps)
qed

lemma getitem_KeyError:
  assumes "hash_key ops d key = Inr i" "i < length (buckets d)"
  shows "(getitem ops d key = Inl KeyError) = (position (key_eq ops) key (buckets d ! i) = None)"
  using assms scan_None_position[of "key_eq ops" key "buckets d ! i"]
  by (auto simp: getitem_def split: option.splits)

lemma setitem_load:
  assumes cnt: "counted ops d" and load: "4 * size' d < 3 * int (capacity d)"
  shows "\<exists>d'. setitem ops d key val = Inr d' \<and> counted ops d' \<and>
           4 * size' d' < 3 * int (capacity d') \<and>
           capacity d' =
             (if getitem ops d key = Inl KeyError \<and>
                 load_factor_threshold \<le> real_of_int (size' d + 1) / real (capacity d)
              then 2 * capacity d else capacity d)"
proof -
  from cnt have c: "0 < capacity d" by (simp add: counted_def)
  from hash_key_less[OF c] obtain i where h: "hash_key ops d key = Inr i" by blast
  from counted_index[OF cnt h] have i': "i < length (buckets d)" .
  then have i: "\<not> length (buckets d) \<le> i" by simp
  from setitem_counted[OF cnt, of key val] obtain d' where
    ok: "setitem ops d key val = Inr d'" "counted ops d'" by blast
  note g = getitem_KeyError[OF h i']
  show ?thesis
  proof (cases "position (key_eq ops) key (buckets d ! i)")
    case (Some j)
    with g have "getitem ops d key \<noteq> Inl KeyError" by simp
    moreover from ok(1) h i Some have "capacity d' = capacity d" "size' d' = size' d"
      by (auto simp: setitem.simps)
    ultimately show ?thesis using ok load by simp
  next
    case None
    let ?d1 = "d\<lparr>buckets := (buckets d)[i := buckets d ! i @ [(key, val)]],
                   size' := size' d + 1\<rparr>"
    from None g have nk: "getitem ops d key = Inl KeyError" by simp
    show ?thesis
    proof (cases "load_factor_threshold \<le> real_of_int (size' d + 1) / real (capacity d)")
      case True
      from load have l1: "4 * size' ?d1 < 3 * int (capacity ?d1) + 4" by simp
      from resize_load[OF counted_append[OF cnt h, of val] l1] obtain d2 where
        r: "resize ops ?d1 = Inr d2" "capacity d2 = 2 * capacity ?d1"
           "4 * size' d2 < 3 * int (capacity d2)" by blast
      from ok(1) h i None c True r(1) have "d' = d2" by (simp add: setitem.simps)
      with r ok nk True show ?thesis by simp
    next
      case False
      with ok(1) h i None c have d': "d' = ?d1" by (simp add: setitem.simps)
      from False c have "4 * (size' d + 1) < 3 * int (capacity d)"
        using threshold_iff[of "capacity d" "size' d + 1"] by simp
      with d' ok nk False show ?thesis by simp
    qed
  qed
qed

lemma apply_op_counted:
  assumes cnt: "counted ops d" and load: "4 * size' d < 3 * int (capacity d)"
    and r: "apply_op ops d operation = Inr d'"
  shows "counted ops d' \<and> 4 * size' d' < 3 * int (capacity d')"
proof (cases operation)
  case (Set key val)
  with r setitem_load[OF cnt load, of key val] show ?thesis by auto
next
  case (Delete key)
  with r delitem_counted[OF cnt, of key d'] load show ?thesis by simp
next
  case Clear
  with r cnt counted_clear[OF cnt] show ?thesis by (auto simp: clear_def counted_def)
next
  case Resize
  from load have "4 * size' d < 3 * int (capacity d) + 4" by simp
  from resize_load[OF cnt this] Resize r show ?thesis by auto
qed

lemma run_counted:
  "counted ops d \<Longrightarrow> 4 * size' d < 3 * int (capacity d) \<Longrightarrow> run ops d operations = Inr d' \<Longrightarrow>
     counted ops d' \<and> 4 * size' d' < 3 * int (capacity d')"
proof (induction operations arbitrary: d)
  case Nil
  then show ?case by simp
next
  case (Cons operation operations)
  from Cons.prems(3) obtain d1 where a: "apply_op ops d operation = Inr d1"
    and r: "run ops d1 operations = Inr d'"
    by (auto split: sum.splits)
  from apply_op_counted[OF Cons.prems(1,2) a]
  have "counted ops d1" "4 * size' d1 < 3 * int (capacity d1)" by simp_all
  from Cons.IH[OF this r] show ?case .
qed

lemma run_init_counted:
  assumes "0 < initial_capacity" "run ops (init initial_capacity) operations = Inr d"
  shows "counted ops d \<and> 4 * size' d < 3 * int (capacity d)"
proof -
  from assms(1) have "4 * size' (init initial_capacity :: ('a, 'b) CustomDictionary)
      < 3 * int (capacity (init initial_capacity :: ('a, 'b) CustomDictionary))"
    by (simp add: init_def)
  from run_counted[OF counted_init[OF assms(1)] this assms(2)] show ?thesis .
qed


subsection \<open>What holds when \<^verbatim>\<open>==\<close> is equality\<close>

lemma setitem_ok:
  assumes "invar ops d"
  shows "\<exists>d'. setitem ops d key val = Inr d' \<and> invar ops d' \<and>
           mapping_of d' = (mapping_of d)(key \<mapsto> val)"
  using setitem_resize_rehash_correct(1)[of ops d key val] assms by blast

lemma resize_ok:
  assumes "invar ops d"
  shows "\<exists>d'. resize ops d = Inr d' \<and> invar ops d' \<and> mapping_of d' = mapping_of d"
proof -
  from assms have c: "equality_keys ops \<and> 0 < capacity d" by (simp add: invar_def)
  with setitem_resize_rehash_correct(2)[of ops d] obtain d' where
    r: "resize ops d = Inr d'" "invar ops d'"
       "mapping_of d' = foldl store Map.empty (concat (buckets d))" by blast
  from invar_distinct[OF assms] have "distinct (map fst (concat (buckets d)))"
    by (simp add: items_def)
  from foldl_store_distinct[OF this, of Map.empty] r(3)
  have "mapping_of d' = mapping_of d" by (simp add: mapping_of_def items_def)
  with r show ?thesis by blast
qed

lemma mapping_of_dom: "(mapping_of d key = None) = (key \<notin> set (keys d))"
  by (simp add: mapping_of_def keys_def map_of_eq_None_iff)

lemma getitem_absent:
  "invar ops d \<Longrightarrow> (getitem ops d key = Inl KeyError) = (key \<notin> set (keys d))"
  using getitem_mapping[of ops d key] mapping_of_dom[of d key]
  by (auto split: option.splits)

lemma delitem_ok:
  assumes inv: "invar ops d" and r: "delitem ops d key = Inr d'"
  shows "invar ops d' \<and> mapping_of d' = (mapping_of d)(key := None) \<and>
         capacity d' = capacity d \<and> size' d' = size' d - 1"
proof -
  from inv have c: "0 < capacity d" by (simp add: invar_def)
  from hash_key_less[OF c] obtain i where h: "hash_key ops d key = Inr i" by blast
  from invar_index[OF inv h] have i: "\<not> length (buckets d) \<le> i" by simp
  from r h i obtain j where pos: "position (key_eq ops) key (buckets d ! i) = Some j"
    by (cases "position (key_eq ops) key (buckets d ! i)") (simp_all add: delitem_def)
  with r h i invar_remove[OF inv h pos] show ?thesis
    by (auto simp: delitem_def)
qed

lemma delitem_present:
  assumes inv: "invar ops d"
  shows "(key \<in> set (keys d) \<longrightarrow> (\<exists>d'. delitem ops d key = Inr d')) \<and>
         (key \<notin> set (keys d) \<longrightarrow> delitem ops d key = Inl KeyError)"
proof -
  from inv have c: "0 < capacity d" by (simp add: invar_def)
  from hash_key_less[OF c] obtain i where h: "hash_key ops d key = Inr i" by blast
  from invar_index[OF inv h] have i: "i < length (buckets d)" by simp
  from getitem_KeyError[OF h i] getitem_absent[OF inv, of key]
  have "(position (key_eq ops) key (buckets d ! i) = None) = (key \<notin> set (keys d))" by simp
  with h i show ?thesis
    by (cases "position (key_eq ops) key (buckets d ! i)") (auto simp: delitem_def)
qed

lemma apply_op_invar:
  assumes "invar ops d" "apply_op ops d operation = Inr d'"
  shows "invar ops d'"
proof (cases operation)
  case (Set key val)
  with assms setitem_ok[OF assms(1), of key val] show ?thesis by auto
next
  case (Delete key)
  with assms delitem_ok[of ops d key d'] show ?thesis by simp
next
  case Clear
  with assms invar_clear[of ops d] show ?thesis by auto
next
  case Resize
  with assms resize_ok[OF assms(1)] show ?thesis by auto
qed

lemma run_invar:
  "invar ops d \<Longrightarrow> run ops d operations = Inr d' \<Longrightarrow> invar ops d'"
proof (induction operations arbitrary: d)
  case Nil
  then show ?case by simp
next
  case (Cons operation operations)
  then show ?case
    by (auto split: sum.splits dest: apply_op_invar)
qed

lemma apply_op_untouched:
  assumes inv: "invar ops d" and r: "apply_op ops d operation = Inr d'"
    and nw: "\<not> writes key operation"
  shows "mapping_of d' key = mapping_of d key"
proof (cases operation)
  case (Set k v)
  with r nw setitem_ok[OF inv, of k v] show ?thesis by auto
next
  case (Delete k)
  with r nw delitem_ok[OF inv, of k d'] show ?thesis by auto
next
  case Clear
  with nw show ?thesis by simp
next
  case Resize
  with r resize_ok[OF inv] show ?thesis by auto
qed

lemma run_untouched:
  "invar ops d \<Longrightarrow> run ops d operations = Inr d' \<Longrightarrow>
   list_all (\<lambda>operation. \<not> writes key operation) operations \<Longrightarrow>
     mapping_of d' key = mapping_of d key"
proof (induction operations arbitrary: d)
  case Nil
  then show ?case by simp
next
  case (Cons operation operations)
  from Cons.prems(2) obtain d1 where a: "apply_op ops d operation = Inr d1"
    and r: "run ops d1 operations = Inr d'"
    by (auto split: sum.splits)
  from Cons.prems(3) have nw: "\<not> writes key operation"
    and rest: "list_all (\<lambda>operation. \<not> writes key operation) operations" by simp_all
  from Cons.IH[OF apply_op_invar[OF Cons.prems(1) a] r rest]
    apply_op_untouched[OF Cons.prems(1) a nw]
  show ?case by simp
qed

subsection \<open>The structural invariant\<close>

text \<open>
  C10 as stated (each key occurs at most once) fails for a key that is not \<^verbatim>\<open>==\<close>
  to itself: \<^verbatim>\<open>__setitem__\<close> finds no entry with \<^verbatim>\<open>existing_key == key\<close> and
  appends, so setting a float NaN key twice stores it twice.
\<close>

theorem duplicate_key_counterexample:
  "run nan_keys (init 4) [Set (Other ()) (1::int), Set (Other ()) 2] =
     Inr \<lparr>capacity = 4, size' = 2, buckets = [[(Other (), 1), (Other (), 2)], [], [], []]\<rparr> \<and>
   \<not> distinct (keys \<lparr>capacity = 4, size' = 2,
                      buckets = [[(Other (), 1::int), (Other (), 2)], [], [], []]\<rparr>)"
  by code_simp

text \<open>
  C10, amended. In every state that a sequence of \<^verbatim>\<open>set\<close>, \<^verbatim>\<open>delete\<close>, \<^verbatim>\<open>clear\<close>
  and \<^verbatim>\<open>_resize\<close> calls reaches from a new dictionary of positive capacity, for keys
  of every kind: the \<^verbatim>\<open>size\<close> field is the number of entries over all buckets,
  there are \<open>capacity\<close> buckets, and every entry lies in the bucket whose index
  \<^verbatim>\<open>_hash\<close> gives for its key with the current capacity. When \<^verbatim>\<open>==\<close> on the keys is
  equality, no key occurs twice among all the entries (so each key lies in at most
  one bucket, at most once).
\<close>

theorem structural_invariant:
  assumes "0 < initial_capacity"
    and "run ops (init initial_capacity) operations = Inr d"
  shows "size' d = int (length (items d)) \<and>
         length (buckets d) = capacity d \<and>
         (\<forall>i < length (buckets d). \<forall>e \<in> set (buckets d ! i). hash_key ops d (fst e) = Inr i) \<and>
         (equality_keys ops \<longrightarrow> distinct (keys d))"
proof -
  from run_init_counted[OF assms] have cnt: "counted ops d" by simp
  then have "size' d = int (length (items d))"
    by (simp add: counted_def entries_def items_def)
  moreover from cnt have "length (buckets d) = capacity d" by (simp add: counted_def)
  moreover from cnt have "placed ops d" by (simp add: counted_def)
  moreover have "equality_keys ops \<longrightarrow> distinct (keys d)"
  proof
    assume "equality_keys ops"
    from run_invar[OF invar_init[OF this assms(1)] assms(2)] have "invar ops d" .
    from invar_distinct[OF this] show "distinct (keys d)" by (simp add: keys_def)
  qed
  ultimately show ?thesis by (simp add: placed_def)
qed

lemma scenario_run:
  "run int_keys (init 4) [Set (Str ''cat'') (1::int), Set (Other 6) 2, Set (Str ''dog'') 3] =
     Inr \<lparr>capacity = 8, size' = 3,
          buckets = [[], [], [], [], [(Str ''dog'', 3)], [], [(Str ''cat'', 1), (Other 6, 2)], []]\<rparr>"
  by code_simp

theorem structural_invariant_witness:
  "size' \<lparr>capacity = 8, size' = 3,
          buckets = [[], [], [], [], [(Str ''dog'', 3::int)], [], [(Str ''cat'', 1), (Other (6::int), 2)], []]\<rparr> =
     int (length (items \<lparr>capacity = 8, size' = 3,
          buckets = [[], [], [], [], [(Str ''dog'', 3::int)], [], [(Str ''cat'', 1), (Other (6::int), 2)], []]\<rparr>)) \<and>
   distinct (keys \<lparr>capacity = 8, size' = 3,
          buckets = [[], [], [], [], [(Str ''dog'', 3::int)], [], [(Str ''cat'', 1), (Other (6::int), 2)], []]\<rparr>)"
  using structural_invariant[OF _ scenario_run] equality_int_keys by simp

subsection \<open>The load factor\<close>

text \<open>
  C2. After every \<^verbatim>\<open>set\<close> the load factor is below the threshold: in every
  state \<open>d\<close> that a sequence of operations reaches from a new dictionary,
  \<^verbatim>\<open>set(key, value)\<close> returns a state \<open>d'\<close> with \<open>size / capacity < 0.75\<close>.
  When the key is not found (\<^verbatim>\<open>get\<close> raises \<^verbatim>\<open>KeyError\<close>) and the insertion makes
  \<open>size / capacity \<ge> 0.75\<close>, the capacity of \<open>d'\<close> is exactly twice that of \<open>d\<close>
  (one resize, which the reinsertions do not trigger again) and every entry lies in
  the bucket of its key for the new capacity; otherwise the capacity is unchanged.
  This holds for keys of every kind. When \<^verbatim>\<open>==\<close> on the keys is equality, the key is
  not found exactly when it is not among the keys, and the mapping of \<open>d'\<close> is that of
  \<open>d\<close> updated at the key.
\<close>

theorem load_factor_after_set:
  assumes "0 < initial_capacity"
    and "run ops (init initial_capacity) operations = Inr d"
  shows "\<exists>d'. setitem ops d key val = Inr d' \<and> load_ok d' \<and>
           capacity d' =
             (if getitem ops d key = Inl KeyError \<and>
                 load_factor_threshold \<le> real_of_int (size' d + 1) / real (capacity d)
              then 2 * capacity d else capacity d) \<and>
           placed ops d' \<and>
           (equality_keys ops \<longrightarrow>
              (getitem ops d key = Inl KeyError) = (key \<notin> set (keys d)) \<and>
              mapping_of d' = (mapping_of d)(key \<mapsto> val))"
proof -
  from run_init_counted[OF assms] have cnt: "counted ops d"
    and load: "4 * size' d < 3 * int (capacity d)" by simp_all
  from setitem_load[OF cnt load, of key val] obtain d' where
    s: "setitem ops d key val = Inr d'" "counted ops d'"
       "4 * size' d' < 3 * int (capacity d')"
       "capacity d' =
             (if getitem ops d key = Inl KeyError \<and>
                 load_factor_threshold \<le> real_of_int (size' d + 1) / real (capacity d)
              then 2 * capacity d else capacity d)" by blast
  from s(2) have c': "0 < capacity d'" and p': "placed ops d'" by (simp_all add: counted_def)
  have e: "equality_keys ops \<longrightarrow>
              (getitem ops d key = Inl KeyError) = (key \<notin> set (keys d)) \<and>
              mapping_of d' = (mapping_of d)(key \<mapsto> val)"
  proof
    assume "equality_keys ops"
    from run_invar[OF invar_init[OF this assms(1)] assms(2)] have inv: "invar ops d" .
    from setitem_ok[OF inv, of key val] s(1)
    have "mapping_of d' = (mapping_of d)(key \<mapsto> val)" by simp
    with getitem_absent[OF inv, of key]
    show "(getitem ops d key = Inl KeyError) = (key \<notin> set (keys d)) \<and>
              mapping_of d' = (mapping_of d)(key \<mapsto> val)" by simp
  qed
  from s(1,3,4) c' p' e show ?thesis by (simp add: load_ok_iff)
qed

lemma run2:
  "run int_keys (init 4) [Set (Str ''cat'') (1::int), Set (Other 6) 2] =
     Inr \<lparr>capacity = 4, size' = 2, buckets = [[], [], [(Str ''cat'', 1), (Other 6, 2)], []]\<rparr>"
  by code_simp

lemma scenario_absent:
  "getitem int_keys
     \<lparr>capacity = 4, size' = 2, buckets = [[], [], [(Str ''cat'', 1::int), (Other 6, 2)], []]\<rparr>
     (Str ''dog'') = Inl KeyError"
  by code_simp

theorem load_factor_after_set_witness:
  "\<exists>d'. setitem int_keys
          \<lparr>capacity = 4, size' = 2, buckets = [[], [], [(Str ''cat'', 1::int), (Other 6, 2)], []]\<rparr>
          (Str ''dog'') 3 = Inr d' \<and> load_ok d' \<and> capacity d' = 8"
  using load_factor_after_set[OF _ run2, of "Str ''dog''" 3] scenario_absent
  by (auto simp add: load_factor_threshold_def)

subsection \<open>Reading after writing\<close>

text \<open>
  C1 as stated (for every key) fails for a key that is not \<^verbatim>\<open>==\<close> to itself:
  \<^verbatim>\<open>__getitem__\<close> finds no entry with \<^verbatim>\<open>existing_key == key\<close>, so \<^verbatim>\<open>get\<close> of a float
  NaN key raises \<^verbatim>\<open>KeyError\<close> right after \<^verbatim>\<open>set\<close> stored it.
\<close>

theorem get_after_set_counterexample:
  "setitem nan_keys (init 4) (Other ()) (1::int) =
     Inr \<lparr>capacity = 4, size' = 1, buckets = [[(Other (), 1)], [], [], []]\<rparr> \<and>
   getitem nan_keys \<lparr>capacity = 4, size' = 1, buckets = [[(Other (), 1::int)], [], [], []]\<rparr>
     (Other ()) = Inl KeyError"
  by code_simp

text \<open>
  C1, amended. When \<^verbatim>\<open>==\<close> on the keys is equality, in every state \<open>d\<close> that a
  sequence of operations reaches from a new dictionary: \<^verbatim>\<open>set(key, value)\<close> succeeds
  and stores the key, and after any further operations that neither set nor delete
  \<open>key\<close> (they may resize the table) \<^verbatim>\<open>get(key)\<close> returns \<open>value\<close>;
  \<^verbatim>\<open>delete(key)\<close> succeeds when the key is stored and raises \<^verbatim>\<open>KeyError\<close> when it is
  not, and after a delete, and any further operations that do not set \<open>key\<close>,
  \<^verbatim>\<open>get(key)\<close> raises \<^verbatim>\<open>KeyError\<close>; and \<^verbatim>\<open>_resize\<close> succeeds, changes the result
  of no \<^verbatim>\<open>get\<close> and keeps exactly the same set of entries.
\<close>

theorem get_after_set_delete_resize:
  assumes "equality_keys ops"
    and "0 < initial_capacity"
    and "run ops (init initial_capacity) operations = Inr d"
  shows "(\<exists>d1. setitem ops d key val = Inr d1 \<and> key \<in> set (keys d1) \<and>
            (\<forall>later d2. list_all (\<lambda>operation. \<not> writes key operation) later \<and>
                 run ops d1 later = Inr d2 \<longrightarrow> getitem ops d2 key = Inr val)) \<and>
         (key \<in> set (keys d) \<longrightarrow>
            (\<exists>d1. delitem ops d key = Inr d1 \<and>
               (\<forall>later d2. list_all (\<lambda>operation. \<not> writes key operation) later \<and>
                    run ops d1 later = Inr d2 \<longrightarrow> getitem ops d2 key = Inl KeyError))) \<and>
         (key \<notin> set (keys d) \<longrightarrow> delitem ops d key = Inl KeyError) \<and>
         (\<exists>d1. resize ops d = Inr d1 \<and> (\<forall>k. getitem ops d1 k = getitem ops d k) \<and>
            set (items d1) = set (items d))"
proof (intro conjI)
  from run_invar[OF invar_init[OF assms(1,2)] assms(3)] have inv: "invar ops d" .
  from setitem_ok[OF inv, of key val] obtain d1 where
    s: "setitem ops d key val = Inr d1" "invar ops d1"
       "mapping_of d1 = (mapping_of d)(key \<mapsto> val)" by blast
  have "\<forall>later d2. list_all (\<lambda>operation. \<not> writes key operation) later \<and>
          run ops d1 later = Inr d2 \<longrightarrow> getitem ops d2 key = Inr val"
  proof (intro allI impI, elim conjE)
    fix later d2
    assume nw: "list_all (\<lambda>operation. \<not> writes key operation) later"
      and r: "run ops d1 later = Inr d2"
    from run_untouched[OF s(2) r nw] s(3) have "mapping_of d2 key = Some val" by simp
    with getitem_mapping[OF run_invar[OF s(2) r], of key]
    show "getitem ops d2 key = Inr val" by simp
  qed
  moreover from s(3) have "key \<in> set (keys d1)"
    using mapping_of_dom[of d1 key] by simp
  ultimately show "\<exists>d1. setitem ops d key val = Inr d1 \<and> key \<in> set (keys d1) \<and>
            (\<forall>later d2. list_all (\<lambda>operation. \<not> writes key operation) later \<and>
                 run ops d1 later = Inr d2 \<longrightarrow> getitem ops d2 key = Inr val)"
    using s(1) by blast
  show "key \<in> set (keys d) \<longrightarrow>
            (\<exists>d1. delitem ops d key = Inr d1 \<and>
               (\<forall>later d2. list_all (\<lambda>operation. \<not> writes key operation) later \<and>
                    run ops d1 later = Inr d2 \<longrightarrow> getitem ops d2 key = Inl KeyError))"
  proof
    assume "key \<in> set (keys d)"
    with delitem_present[OF inv, of key] obtain d1 where del: "delitem ops d key = Inr d1"
      by blast
    from delitem_ok[OF inv del] have i1: "invar ops d1" and m1: "mapping_of d1 key = None"
      by simp_all
    have "\<forall>later d2. list_all (\<lambda>operation. \<not> writes key operation) later \<and>
            run ops d1 later = Inr d2 \<longrightarrow> getitem ops d2 key = Inl KeyError"
    proof (intro allI impI, elim conjE)
      fix later d2
      assume nw: "list_all (\<lambda>operation. \<not> writes key operation) later"
        and r: "run ops d1 later = Inr d2"
      from run_untouched[OF i1 r nw] m1 have "mapping_of d2 key = None" by simp
      with getitem_mapping[OF run_invar[OF i1 r], of key]
      show "getitem ops d2 key = Inl KeyError" by simp
    qed
    with del show "\<exists>d1. delitem ops d key = Inr d1 \<and>
               (\<forall>later d2. list_all (\<lambda>operation. \<not> writes key operation) later \<and>
                    run ops d1 later = Inr d2 \<longrightarrow> getitem ops d2 key = Inl KeyError)"
      by blast
  qed
  show "key \<notin> set (keys d) \<longrightarrow> delitem ops d key = Inl KeyError"
    using delitem_present[OF inv, of key] by blast
  from resize_ok[OF inv] obtain d3 where
    z: "resize ops d = Inr d3" "invar ops d3" "mapping_of d3 = mapping_of d" by blast
  have "\<forall>k. getitem ops d3 k = getitem ops d k"
    using getitem_mapping[OF z(2)] getitem_mapping[OF inv] z(3) by simp
  moreover have "set (items d3) = set (items d)"
    using map_of_inject_set[OF invar_distinct[OF z(2)] invar_distinct[OF inv]] z(3)
    by (simp add: mapping_of_def)
  ultimately show "\<exists>d1. resize ops d = Inr d1 \<and> (\<forall>k. getitem ops d1 k = getitem ops d k) \<and>
            set (items d1) = set (items d)" using z(1) by blast
qed

lemma scenario_set:
  "setitem int_keys
     \<lparr>capacity = 4, size' = 2, buckets = [[], [], [(Str ''cat'', 1::int), (Other 6, 2)], []]\<rparr>
     (Str ''dog'') 3 =
   Inr \<lparr>capacity = 8, size' = 3,
        buckets = [[], [], [], [], [(Str ''dog'', 3)], [], [(Str ''cat'', 1), (Other 6, 2)], []]\<rparr>"
  by code_simp

lemma scenario_later:
  "run int_keys
     \<lparr>capacity = 8, size' = 3,
        buckets = [[], [], [], [], [(Str ''dog'', 3::int)], [], [(Str ''cat'', 1), (Other 6, 2)], []]\<rparr>
     [Delete (Other 6), Set (Str ''emu'') 4, Resize] =
   Inr \<lparr>capacity = 16, size' = 3,
        buckets = [[], [], [], [], [], [], [(Str ''cat'', 1)], [], [], [], [], [],
                   [(Str ''dog'', 3)], [(Str ''emu'', 4)], [], []]\<rparr>"
  by code_simp

lemma scenario_delete:
  "delitem int_keys
     \<lparr>capacity = 4, size' = 2, buckets = [[], [], [(Str ''cat'', 1::int), (Other 6, 2)], []]\<rparr>
     (Str ''cat'') =
   Inr \<lparr>capacity = 4, size' = 1, buckets = [[], [], [(Other 6, 2)], []]\<rparr>"
  by code_simp

lemma scenario_after_delete:
  "run int_keys
     \<lparr>capacity = 4, size' = 1, buckets = [[], [], [(Other 6, 2::int)], []]\<rparr>
     [Set (Str ''emu'') 4, Resize] =
   Inr \<lparr>capacity = 8, size' = 2,
        buckets = [[], [], [], [], [], [(Str ''emu'', 4)], [(Other 6, 2)], []]\<rparr>"
  by code_simp

theorem get_after_set_delete_resize_witness:
  "getitem int_keys
     \<lparr>capacity = 16, size' = 3,
        buckets = [[], [], [], [], [], [], [(Str ''cat'', 1::int)], [], [], [], [], [],
                   [(Str ''dog'', 3)], [(Str ''emu'', 4)], [], []]\<rparr>
     (Str ''dog'') = Inr 3 \<and>
   getitem int_keys
     \<lparr>capacity = 8, size' = 2,
        buckets = [[], [], [], [], [], [(Str ''emu'', 4::int)], [(Other 6, 2)], []]\<rparr>
     (Str ''cat'') = Inl KeyError"
proof
  from get_after_set_delete_resize[OF equality_int_keys _ run2, of "Str ''dog''" 3] scenario_set
  have "\<forall>later d2. list_all (\<lambda>operation. \<not> writes (Str ''dog'') operation) later \<and>
          run int_keys \<lparr>capacity = 8, size' = 3,
            buckets = [[], [], [], [], [(Str ''dog'', 3::int)], [], [(Str ''cat'', 1), (Other 6, 2)], []]\<rparr>
            later = Inr d2 \<longrightarrow> getitem int_keys d2 (Str ''dog'') = Inr 3"
    by simp
  then have "list_all (\<lambda>operation. \<not> writes (Str ''dog'') operation)
          [Delete (Other (6::int)), Set (Str ''emu'') (4::int), Resize] \<and>
        run int_keys \<lparr>capacity = 8, size' = 3,
            buckets = [[], [], [], [], [(Str ''dog'', 3::int)], [], [(Str ''cat'', 1), (Other 6, 2)], []]\<rparr>
            [Delete (Other 6), Set (Str ''emu'') 4, Resize] =
          Inr \<lparr>capacity = 16, size' = 3,
            buckets = [[], [], [], [], [], [], [(Str ''cat'', 1::int)], [], [], [], [], [],
                   [(Str ''dog'', 3)], [(Str ''emu'', 4)], [], []]\<rparr> \<longrightarrow>
        getitem int_keys
          \<lparr>capacity = 16, size' = 3,
            buckets = [[], [], [], [], [], [], [(Str ''cat'', 1::int)], [], [], [], [], [],
                   [(Str ''dog'', 3)], [(Str ''emu'', 4)], [], []]\<rparr>
          (Str ''dog'') = Inr 3"
    by blast
  moreover have "list_all (\<lambda>operation. \<not> writes (Str ''dog'') operation)
          [Delete (Other (6::int)), Set (Str ''emu'') (4::int), Resize]"
    by simp
  ultimately show "getitem int_keys
     \<lparr>capacity = 16, size' = 3,
        buckets = [[], [], [], [], [], [], [(Str ''cat'', 1::int)], [], [], [], [], [],
                   [(Str ''dog'', 3)], [(Str ''emu'', 4)], [], []]\<rparr>
     (Str ''dog'') = Inr 3"
    using scenario_later by blast
next
  have present: "Str ''cat'' \<in> set (keys \<lparr>capacity = 4, size' = 2,
      buckets = [[], [], [(Str ''cat'', 1::int), (Other (6::int), 2)], []]\<rparr>)"
    by (simp add: keys_def items_def)
  from get_after_set_delete_resize[OF equality_int_keys _ run2, of "Str ''cat''" 0]
    present scenario_delete
  have "\<forall>later d2. list_all (\<lambda>operation. \<not> writes (Str ''cat'') operation) later \<and>
          run int_keys \<lparr>capacity = 4, size' = 1, buckets = [[], [], [(Other 6, 2::int)], []]\<rparr>
            later = Inr d2 \<longrightarrow> getitem int_keys d2 (Str ''cat'') = Inl KeyError"
    by simp
  then have "list_all (\<lambda>operation. \<not> writes (Str ''cat'') operation)
          [Set (Str ''emu'') (4::int), Resize :: (int, int) operation] \<and>
        run int_keys \<lparr>capacity = 4, size' = 1, buckets = [[], [], [(Other 6, 2::int)], []]\<rparr>
            [Set (Str ''emu'') 4, Resize] =
          Inr \<lparr>capacity = 8, size' = 2,
            buckets = [[], [], [], [], [], [(Str ''emu'', 4::int)], [(Other 6, 2)], []]\<rparr> \<longrightarrow>
        getitem int_keys
          \<lparr>capacity = 8, size' = 2,
            buckets = [[], [], [], [], [], [(Str ''emu'', 4::int)], [(Other 6, 2)], []]\<rparr>
          (Str ''cat'') = Inl KeyError"
    by blast
  moreover have "list_all (\<lambda>operation. \<not> writes (Str ''cat'') operation)
          [Set (Str ''emu'') (4::int), Resize :: (int, int) operation]"
    by simp
  ultimately show "getitem int_keys
     \<lparr>capacity = 8, size' = 2,
        buckets = [[], [], [], [], [], [(Str ''emu'', 4::int)], [(Other 6, 2)], []]\<rparr>
     (Str ''cat'') = Inl KeyError"
    using scenario_after_delete by blast
qed


section \<open>The term-weighting engine (indexing.py)\<close>

text \<open>
  A built-in \<^verbatim>\<open>dict\<close> is an association list in insertion order; \<open>dict_set\<close> is
  \<^verbatim>\<open>d[key] = value\<close> (an existing key keeps its place). \<open>increment\<close> is
  \<^verbatim>\<open>counts[word] += 1\<close> on a \<^verbatim>\<open>defaultdict(int)\<close> or a \<^verbatim>\<open>Counter\<close>. A Python
  \<^verbatim>\<open>set\<close> is iterated in the order of \<open>remdups\<close>; the mappings built below do not
  depend on that order.
\<close>

fun dict_set :: "('k \<times> 'v) list \<Rightarrow> 'k \<Rightarrow> 'v \<Rightarrow> ('k \<times> 'v) list" where
  "dict_set [] key val = [(key, val)]"
| "dict_set ((k, v) # d) key val =
     (if k = key then (k, val) # d else (k, v) # dict_set d key val)"

definition dict_get :: "('k \<times> 'v) list \<Rightarrow> 'k \<Rightarrow> 'v \<Rightarrow> 'v" where
  "dict_get d key default_value = (case map_of d key of Some val \<Rightarrow> val | None \<Rightarrow> default_value)"

definition increment :: "('k \<times> nat) list \<Rightarrow> 'k \<Rightarrow> ('k \<times> nat) list" where
  "increment counts word = dict_set counts word (dict_get counts word 0 + 1)"

definition Counter :: "'k list \<Rightarrow> ('k \<times> nat) list" where
  "Counter doc_words = foldl increment [] doc_words"


text \<open>
  A Python \<^verbatim>\<open>float\<close> is an IEEE 754 double. It is represented by the real number it
  denotes, and \<open>round_to_double\<close> rounds a real to the nearest number with a 53-bit
  significand, ties to the even significand: \<open>binary_exponent x\<close> is the \<open>e\<close> with
  \<open>2\<^sup>e \<le> x < 2\<^sup>e\<^sup>+\<^sup>1\<close> (lemmas \<open>binary_exponent_le\<close> and \<open>binary_exponent_less\<close>),
  so \<open>x / 2\<^sup>e\<^sup>-\<^sup>5\<^sup>2\<close> lies in \<open>[2\<^sup>5\<^sup>2, 2\<^sup>5\<^sup>3)\<close> and is rounded to an integer. The
  exponent is not bounded: the quotients and sums below lie between \<open>1 / len\<close> and
  \<open>2\<close>, far from overflow and underflow for every list a machine can hold.
  \<open>true_divide\<close> is \<^verbatim>\<open>/\<close> on two \<^verbatim>\<open>int\<close>s, which CPython rounds correctly; in
  \<^verbatim>\<open>calculate_tf\<close> the divisor is the length of a list with at least one word
  whenever the loop body runs. \<open>float_add\<close> is \<^verbatim>\<open>+\<close> on two floats and \<open>float_sum\<close>
  adds a list of floats from left to right, starting from 0.
\<close>

definition pow2 :: "int \<Rightarrow> real" where
  "pow2 e = (if 0 \<le> e then 2 ^ nat e else 1 / 2 ^ nat (- e))"

definition binary_exponent :: "real \<Rightarrow> int" where
  "binary_exponent x =
     (if 1 \<le> x then int (floorlog 2 (nat \<lfloor>x\<rfloor>)) - 1
      else - int (floorlog 2 (nat \<lceil>1 / x\<rceil> - 1)))"

definition round_half_even :: "real \<Rightarrow> int" where
  "round_half_even x =
     (let n = \<lfloor>x\<rfloor>; r = x - of_int n
      in if r < 1 / 2 then n else if 1 / 2 < r then n + 1 else if even n then n else n + 1)"

definition round_to_double :: "real \<Rightarrow> real" where
  "round_to_double x =
     (if x = 0 then 0
      else let e = binary_exponent \<bar>x\<bar> - 52
           in of_int (round_half_even (x / pow2 e)) * pow2 e)"

definition float_add :: "real \<Rightarrow> real \<Rightarrow> real" where
  "float_add x y = round_to_double (x + y)"

definition float_sum :: "real list \<Rightarrow> real" where
  "float_sum xs = foldl float_add 0 xs"

definition true_divide :: "nat \<Rightarrow> nat \<Rightarrow> real" where
  "true_divide a b = round_to_double (real a / real b)"

definition calculate_tf :: "string list \<Rightarrow> (string \<times> real) list" where
  "calculate_tf doc_words =
     (let total_words = length doc_words;
          word_counts = Counter doc_words
      in foldl (\<lambda>tf (word, count). dict_set tf word (true_divide count total_words))
           [] word_counts)"

text \<open>In \<^verbatim>\<open>calculate_idf\<close> the quotient and \<^verbatim>\<open>math.log\<close> are taken over the reals.\<close>

definition calculate_idf :: "string list list \<Rightarrow> (string \<times> real) list" where
  "calculate_idf documents =
     (let total_docs = length documents;
          word_doc_counts =
            foldl (\<lambda>counts doc_words. foldl increment counts (remdups doc_words)) [] documents
      in foldl (\<lambda>idf (word, doc_count).
                  dict_set idf word (ln (real total_docs / real (1 + doc_count))))
           [] word_doc_counts)"

lemma map_of_dict_set: "map_of (dict_set d key val) = (map_of d)(key \<mapsto> val)"
  by (induction d key val rule: dict_set.induct) (auto simp: fun_upd_twist)

lemma keys_dict_set: "fst ` set (dict_set d key val) = insert key (fst ` set d)"
  by (induction d key val rule: dict_set.induct) auto

lemma distinct_dict_set:
  "distinct (map fst d) \<Longrightarrow> distinct (map fst (dict_set d key val))"
proof (induction d key val rule: dict_set.induct)
  case (1 key val)
  then show ?case by simp
next
  case (2 k v d key val)
  then show ?case using keys_dict_set[of d key val] by auto
qed

lemma dict_set_new: "key \<notin> fst ` set d \<Longrightarrow> dict_set d key val = d @ [(key, val)]"
  by (induction d key val rule: dict_set.induct) auto

lemma sum_increment: "sum_list (map snd (increment counts word)) = Suc (sum_list (map snd counts))"
proof (induction counts)
  case Nil
  then show ?case by (simp add: increment_def dict_get_def)
next
  case (Cons e counts)
  then show ?case by (cases e) (simp add: increment_def dict_get_def)
qed

lemma sum_foldl_increment:
  "sum_list (map snd (foldl increment counts xs)) = sum_list (map snd counts) + length xs"
  by (induction xs arbitrary: counts) (simp_all add: sum_increment)

lemma distinct_increment: "distinct (map fst counts) \<Longrightarrow> distinct (map fst (increment counts word))"
  by (simp add: increment_def distinct_dict_set)

lemma distinct_foldl_increment:
  "distinct (map fst counts) \<Longrightarrow> distinct (map fst (foldl increment counts xs))"
  by (induction xs arbitrary: counts) (simp_all add: distinct_increment)

lemma foldl_dict_set_fresh:
  "distinct (map fst kvs) \<Longrightarrow> fst ` set kvs \<inter> fst ` set acc = {} \<Longrightarrow>
     foldl (\<lambda>d (key, val). dict_set d key (g val)) acc kvs =
       acc @ map (\<lambda>(key, val). (key, g val)) kvs"
proof (induction kvs arbitrary: acc)
  case Nil
  then show ?case by simp
next
  case (Cons e kvs)
  obtain key val where e: "e = (key, val)" by (cases e)
  from Cons.prems e have n: "key \<notin> fst ` set acc" by auto
  from Cons.prems e have "fst ` set kvs \<inter> fst ` set (acc @ [(key, g val)]) = {}" by auto
  with Cons.IH[of "acc @ [(key, g val)]"] Cons.prems(1) e n show ?case
    by (simp add: dict_set_new)
qed

text \<open>The document frequency of the claims: the number of documents (token lists)
  that contain the term at least once.\<close>

definition document_frequency :: "string list list \<Rightarrow> string \<Rightarrow> nat" where
  "document_frequency documents term =
     length (filter (\<lambda>doc_words. term \<in> set doc_words) documents)"

lemma dict_get_increment:
  "dict_get (increment counts word) w 0 = dict_get counts w 0 + (if w = word then 1 else 0)"
  by (simp add: increment_def dict_get_def map_of_dict_set)

lemma keys_increment: "fst ` set (increment counts word) = insert word (fst ` set counts)"
  by (simp add: increment_def keys_dict_set)

lemma dict_get_foldl_increment:
  "distinct ws \<Longrightarrow>
     dict_get (foldl increment counts ws) w 0 = dict_get counts w 0 + (if w \<in> set ws then 1 else 0)"
  by (induction ws arbitrary: counts) (auto simp: dict_get_increment)

lemma keys_foldl_increment:
  "fst ` set (foldl increment counts ws) = fst ` set counts \<union> set ws"
  by (induction ws arbitrary: counts) (auto simp: keys_increment)

lemma dict_get_word_doc_counts:
  "dict_get (foldl (\<lambda>counts doc_words. foldl increment counts (remdups doc_words)) counts documents) w 0 =
     dict_get counts w 0 + document_frequency documents w"
  by (induction documents arbitrary: counts)
     (simp_all add: document_frequency_def dict_get_foldl_increment)

lemma keys_word_doc_counts:
  "fst ` set (foldl (\<lambda>counts doc_words. foldl increment counts (remdups doc_words)) counts documents) =
     fst ` set counts \<union> \<Union> (set ` set documents)"
  by (induction documents arbitrary: counts) (auto simp: keys_foldl_increment)

lemma distinct_word_doc_counts:
  "distinct (map fst counts) \<Longrightarrow>
     distinct (map fst (foldl (\<lambda>counts doc_words. foldl increment counts (remdups doc_words))
        counts documents))"
  by (induction documents arbitrary: counts) (simp_all add: distinct_foldl_increment)

lemma map_of_dict_get:
  "map_of d key = (if key \<in> fst ` set d then Some (dict_get d key default_value) else None)"
  by (auto simp: dict_get_def map_of_eq_None_iff split: option.splits)

lemma map_of_map_values:
  "map_of (map (\<lambda>(key, val). (key, g val)) d) key = map_option g (map_of d key)"
  by (induction d) auto

subsection \<open>Rounding errors\<close>

lemma pow2_powr: "pow2 e = 2 powr (real_of_int e)"
  by (simp add: pow2_def powr_real_of_int inverse_eq_divide)

lemma pow2_pos: "0 < pow2 e"
  by (simp add: pow2_powr)

lemma pow2_add: "pow2 (a + b) = pow2 a * pow2 b"
  by (simp add: pow2_powr powr_add)

lemma round_half_even_error: "\<bar>of_int (round_half_even x) - x\<bar> \<le> 1 / 2"
  unfolding round_half_even_def Let_def by (auto; linarith)


lemma pow2_int: "pow2 (int n) = 2 ^ n"
  by (simp add: pow2_def)

lemma pow2_neg_int: "pow2 (- int n) = 1 / 2 ^ n"
  by (simp add: pow2_powr powr_minus powr_realpow inverse_eq_divide)

lemma binary_exponent_le:
  assumes "0 < x"
  shows "pow2 (binary_exponent x) \<le> x"
proof (cases "1 \<le> x")
  case True
  define m where "m = nat \<lfloor>x\<rfloor>"
  define k where "k = floorlog 2 m"
  from True have m: "0 < m" and mx: "real m \<le> x" by (simp_all add: m_def)
  from floorlog_bounds[OF m, of 2] have b: "2 ^ (k - 1) \<le> m" by (simp add: k_def)
  from m have "0 < k" by (simp add: floorlog_def k_def)
  then have e: "binary_exponent x = int (k - 1)"
    using True by (simp add: binary_exponent_def k_def m_def)
  have "pow2 (binary_exponent x) = real (2 ^ (k - 1))"
    by (simp add: e pow2_def)
  also have "\<dots> \<le> real m" using b by (rule of_nat_mono)
  finally show ?thesis using mx by simp
next
  case False
  with assms have y: "1 < 1 / x" by simp
  define m where "m = nat \<lceil>1 / x\<rceil>"
  define k where "k = floorlog 2 (m - 1)"
  from y have "1 < \<lceil>1 / x\<rceil>" by (simp add: less_ceiling_iff)
  then have m2: "2 \<le> m" unfolding m_def by linarith
  then have m1: "0 < m - 1" by linarith
  from floorlog_bounds[OF m1, of 2] have "m - 1 < 2 ^ k" by (simp add: k_def)
  with m2 have "m \<le> 2 ^ k" by linarith
  then have "real m \<le> real (2 ^ k)" by (rule of_nat_mono)
  moreover have "1 / x \<le> real m" unfolding m_def using y by linarith
  moreover have "real (2 ^ k) = 2 ^ k" by simp
  ultimately have "1 / x \<le> 2 ^ k" by linarith
  with assms have "1 / 2 ^ k \<le> x" by (simp add: field_simps)
  moreover have "pow2 (binary_exponent x) = 1 / 2 ^ k"
    using False by (simp add: binary_exponent_def pow2_def k_def m_def)
  ultimately show ?thesis by simp
qed

lemma binary_exponent_less:
  assumes "0 < x"
  shows "x < pow2 (binary_exponent x + 1)"
proof (cases "1 \<le> x")
  case True
  define m where "m = nat \<lfloor>x\<rfloor>"
  define k where "k = floorlog 2 m"
  from True have m: "0 < m" and mx: "x < real (m + 1)" by (simp_all add: m_def, linarith)
  from floorlog_bounds[OF m, of 2] have "m < 2 ^ k" by (simp add: k_def)
  then have "m + 1 \<le> 2 ^ k" by linarith
  then have "real (m + 1) \<le> real (2 ^ k)" by (rule of_nat_mono)
  moreover have "pow2 (binary_exponent x + 1) = 2 ^ k"
    using True by (simp add: binary_exponent_def pow2_def k_def m_def)
  ultimately show ?thesis using mx by simp
next
  case False
  with assms have y: "1 < 1 / x" by simp
  define m where "m = nat \<lceil>1 / x\<rceil>"
  define k where "k = floorlog 2 (m - 1)"
  from y have "1 < \<lceil>1 / x\<rceil>" by (simp add: less_ceiling_iff)
  then have m2: "2 \<le> m" unfolding m_def by linarith
  then have m1: "0 < m - 1" by linarith
  then have k: "0 < k" by (simp add: floorlog_def k_def)
  from floorlog_bounds[OF m1, of 2] have "2 ^ (k - 1) \<le> m - 1" by (simp add: k_def)
  then have "real (2 ^ (k - 1)) \<le> real (m - 1)" by (rule of_nat_mono)
  moreover have "real (m - 1) < 1 / x"
  proof -
    have "real (m - 1) = real m - 1" using m2 by (simp add: of_nat_diff)
    moreover have "real m < 1 / x + 1" unfolding m_def using y by linarith
    ultimately show ?thesis by linarith
  qed
  ultimately have "real (2 ^ (k - 1)) < 1 / x" by linarith
  then have "2 ^ (k - 1) < 1 / x" by simp
  with assms have "x < 1 / 2 ^ (k - 1)" by (simp add: field_simps)
  moreover have "pow2 (binary_exponent x + 1) = 1 / 2 ^ (k - 1)"
  proof -
    have "binary_exponent x + 1 = - int (k - 1)"
      using False k by (simp add: binary_exponent_def k_def m_def)
    then show ?thesis by (simp only: pow2_neg_int)
  qed
  ultimately show ?thesis by simp
qed

lemma round_to_double_error: "\<bar>round_to_double x - x\<bar> \<le> \<bar>x\<bar> / 2 ^ 53"
proof (cases "x = 0")
  case True
  then show ?thesis by (simp add: round_to_double_def)
next
  case False
  define e where "e = binary_exponent \<bar>x\<bar> - 52"
  define r where "r = real_of_int (round_half_even (x / pow2 e))"
  have p: "0 < pow2 e" by (rule pow2_pos)
  have rd: "round_to_double x = r * pow2 e"
    using False by (simp add: round_to_double_def e_def r_def Let_def)
  have "r * pow2 e - x = (r - x / pow2 e) * pow2 e" using p by (simp add: field_simps)
  then have "\<bar>r * pow2 e - x\<bar> = \<bar>r - x / pow2 e\<bar> * pow2 e"
    using p by (simp add: abs_mult)
  also have "\<dots> \<le> 1 / 2 * pow2 e"
    using round_half_even_error[of "x / pow2 e"] p by (simp add: r_def)
  finally have b: "\<bar>r * pow2 e - x\<bar> \<le> 1 / 2 * pow2 e" .
  have "pow2 e = pow2 (binary_exponent \<bar>x\<bar>) * pow2 (- 52)"
    using pow2_add[of "binary_exponent \<bar>x\<bar>" "- 52"] by (simp add: e_def)
  then have pe: "1 / 2 * pow2 e = pow2 (binary_exponent \<bar>x\<bar>) / 2 ^ 53"
    by (simp add: pow2_def)
  have "pow2 (binary_exponent \<bar>x\<bar>) / 2 ^ 53 \<le> \<bar>x\<bar> / 2 ^ 53"
    using binary_exponent_le[of "\<bar>x\<bar>"] False by (simp add: divide_right_mono)
  with b pe have "\<bar>r * pow2 e - x\<bar> \<le> \<bar>x\<bar> / 2 ^ 53" by linarith
  then show ?thesis unfolding rd .
qed

lemma round_to_double_nonneg: "0 \<le> x \<Longrightarrow> 0 \<le> round_to_double x"
proof -
  assume x: "0 \<le> x"
  have "x / 2 ^ 53 \<le> x" using x by (simp add: field_simps)
  with round_to_double_error[of x] x show ?thesis by linarith
qed

lemma float_sum_error_step:
  fixes u :: real
  assumes u: "0 \<le> u" and a: "0 \<le> a" and S: "0 \<le> S"
    and err: "\<bar>s - S\<bar> \<le> a * S"
    and xs: "\<forall>x \<in> set xs. 0 \<le> x"
    and fl: "\<And>x. \<bar>round_to_double x - x\<bar> \<le> \<bar>x\<bar> * u"
  shows "\<bar>foldl float_add s xs - (S + sum_list xs)\<bar> \<le>
           ((1 + a) * (1 + u) ^ length xs - 1) * (S + sum_list xs)"
  using a S err xs
proof (induction xs arbitrary: s S a)
  case Nil
  then show ?case by simp
next
  case (Cons x xs)
  let ?s = "float_add s x"
  let ?S = "S + x"
  let ?a = "(1 + a) * (1 + u) - 1"
  from Cons.prems have x: "0 \<le> x" by simp
  have a': "0 \<le> ?a"
  proof -
    have "1 * 1 \<le> (1 + a) * (1 + u)" using Cons.prems(1) u by (intro mult_mono) simp_all
    then show ?thesis by simp
  qed
  have S': "0 \<le> ?S" using Cons.prems(2) x by simp
  have "\<bar>s + x\<bar> \<le> \<bar>s - S\<bar> + (S + x)" using Cons.prems(2) x by simp
  also have "\<dots> \<le> a * S + (S + x)" using Cons.prems(3) by simp
  also have "\<dots> \<le> (1 + a) * ?S"
  proof -
    have "0 \<le> a * x" using Cons.prems(1) x by simp
    then show ?thesis by (simp add: algebra_simps)
  qed
  finally have sx: "\<bar>s + x\<bar> \<le> (1 + a) * ?S" .
  have "\<bar>?s - ?S\<bar> \<le> \<bar>?s - (s + x)\<bar> + \<bar>s - S\<bar>" by simp
  also have "\<dots> \<le> \<bar>s + x\<bar> * u + a * S"
    using fl[of "s + x"] Cons.prems(3) by (simp add: float_add_def)
  also have "\<dots> \<le> (1 + a) * ?S * u + a * ?S"
  proof -
    have "\<bar>s + x\<bar> * u \<le> (1 + a) * ?S * u" using sx u by (rule mult_right_mono)
    moreover have "a * S \<le> a * ?S" using Cons.prems(1) x by (simp add: mult_left_mono)
    ultimately show ?thesis by simp
  qed
  also have "\<dots> = ?a * ?S" by (simp add: algebra_simps)
  finally have err': "\<bar>?s - ?S\<bar> \<le> ?a * ?S" .
  from Cons.prems(4) have rest: "\<forall>x \<in> set xs. 0 \<le> x" by simp
  from Cons.IH[OF a' S' err' rest] show ?case
    by (simp add: algebra_simps)
qed

lemma float_sum_error:
  assumes "\<forall>x \<in> set xs. 0 \<le> x"
  shows "\<bar>float_sum xs - sum_list xs\<bar> \<le> ((1 + 1 / 2 ^ 53) ^ length xs - 1) * sum_list xs"
  using float_sum_error_step[of "1 / 2 ^ 53" 0 0 0 xs] assms round_to_double_error
  by (simp add: float_sum_def)

lemma power_one_plus_le:
  fixes u :: real
  assumes "0 \<le> u" "2 * real m * u \<le> 1"
  shows "(1 + u) ^ m \<le> 1 + 2 * real m * u"
  using assms(2)
proof (induction m)
  case 0
  then show ?case by simp
next
  case (Suc m)
  from Suc.prems assms(1) have m: "2 * real m * u \<le> 1" by (simp add: algebra_simps)
  from Suc.IH[OF m] have "(1 + u) ^ Suc m \<le> (1 + 2 * real m * u) * (1 + u)"
    using assms(1) by (simp add: mult_right_mono mult.commute)
  also have "\<dots> = 1 + 2 * real m * u + u + (2 * real m * u) * u" by (simp add: algebra_simps)
  also have "\<dots> \<le> 1 + 2 * real m * u + u + 1 * u"
    using m assms(1) by (intro add_left_mono mult_right_mono) simp_all
  also have "\<dots> = 1 + 2 * real (Suc m) * u" by (simp add: algebra_simps)
  finally show ?case .
qed

subsection \<open>Term frequencies\<close>

lemma calculate_tf_eq:
  "calculate_tf doc_words =
     map (\<lambda>(word, count). (word, true_divide count (length doc_words))) (Counter doc_words)"
proof -
  have "distinct (map fst (Counter doc_words))"
    unfolding Counter_def by (rule distinct_foldl_increment) simp
  from foldl_dict_set_fresh[OF this, of "[]" "\<lambda>count. true_divide count (length doc_words)"]
  show ?thesis by (simp add: calculate_tf_def)
qed

lemma sum_list_map_divide:
  "sum_list (map (\<lambda>count. real count / n) counts) = real (sum_list counts) / n"
  by (induction counts) (simp_all add: add_divide_distrib)

lemma dict_get_foldl_increment_count:
  "dict_get (foldl increment counts ws) w 0 = dict_get counts w 0 + count_list ws w"
  by (induction ws arbitrary: counts) (auto simp: dict_get_increment)

lemma distinct_Counter: "distinct (map fst (Counter ws))"
  unfolding Counter_def by (rule distinct_foldl_increment) simp

lemma keys_Counter: "fst ` set (Counter ws) = set ws"
  by (simp add: Counter_def keys_foldl_increment)

lemma map_of_Counter:
  "map_of (Counter ws) w = (if w \<in> set ws then Some (count_list ws w) else None)"
proof -
  have "map_of (Counter ws) w =
      (if w \<in> fst ` set (Counter ws) then Some (dict_get (Counter ws) w 0) else None)"
    by (rule map_of_dict_get)
  moreover have "dict_get (Counter ws) w 0 = count_list ws w"
    using dict_get_foldl_increment_count[of "[]" ws w] by (simp add: Counter_def dict_get_def[of "[]"])
  ultimately show ?thesis by (simp add: keys_Counter)
qed

lemma map_of_calculate_tf:
  "map_of (calculate_tf ws) w =
     (if w \<in> set ws then Some (true_divide (count_list ws w) (length ws)) else None)"
  by (simp add: calculate_tf_eq map_of_map_values map_of_Counter)

lemma keys_calculate_tf: "map fst (calculate_tf ws) = map fst (Counter ws)"
  by (simp add: calculate_tf_eq split_def comp_def)

lemma length_calculate_tf: "length (calculate_tf ws) = card (set ws)"
proof -
  have "length (calculate_tf ws) = length (map fst (Counter ws))" by (simp add: calculate_tf_eq)
  also have "\<dots> = card (set (map fst (Counter ws)))"
    using distinct_card[OF distinct_Counter, of ws] by simp
  also have "set (map fst (Counter ws)) = set ws" using keys_Counter[of ws] by simp
  finally show ?thesis .
qed

lemma exact_frequencies_sum:
  assumes "ws \<noteq> []"
  shows "(\<Sum>w \<in> set ws. real (count_list ws w) / real (length ws)) = 1"
proof -
  have "(\<Sum>w \<in> set ws. real (count_list ws w) / real (length ws)) =
        real (\<Sum>w \<in> set ws. count_list ws w) / real (length ws)"
    by (simp add: sum_divide_distrib)
  also have "(\<Sum>w \<in> set ws. count_list ws w) = length ws"
    by (rule sum_count_set) simp_all
  finally show ?thesis using assms by simp
qed

lemma rounded_quotients_sum:
  "\<bar>sum_list (map (\<lambda>count. true_divide count n) counts) - real (sum_list counts) / real n\<bar>
     \<le> (real (sum_list counts) / real n) / 2 ^ 53"
proof (induction counts)
  case Nil
  then show ?case by simp
next
  case (Cons c counts)
  have "\<bar>true_divide c n - real c / real n\<bar> \<le> (real c / real n) / 2 ^ 53"
    using round_to_double_error[of "real c / real n"] by (simp add: true_divide_def)
  with Cons.IH show ?case by (simp add: add_divide_distrib)
qed

lemma sum_calculate_tf:
  assumes "ws \<noteq> []"
  shows "\<bar>sum_list (map snd (calculate_tf ws)) - 1\<bar> \<le> 1 / 2 ^ 53"
proof -
  have "map snd (calculate_tf ws) =
          map (\<lambda>count. true_divide count (length ws)) (map snd (Counter ws))"
    by (simp add: calculate_tf_eq split_def comp_def)
  moreover have "sum_list (map snd (Counter ws)) = length ws"
    using sum_foldl_increment[of "[]" ws] by (simp add: Counter_def)
  ultimately show ?thesis
    using rounded_quotients_sum[of "length ws" "map snd (Counter ws)"] assms by simp
qed

lemma calculate_tf_nonneg: "\<forall>x \<in> set (map snd (calculate_tf ws)). 0 \<le> x"
  by (auto simp: calculate_tf_eq true_divide_def intro!: round_to_double_nonneg)

lemma float_sum_calculate_tf:
  assumes "ws \<noteq> []" and "card (set ws) \<le> 4000000"
  shows "\<bar>float_sum (map snd (calculate_tf ws)) - 1\<bar> \<le> 1 / 10 ^ 9"
proof -
  define u :: real where "u = 1 / 2 ^ 53"
  define k where "k = card (set ws)"
  define S where "S = sum_list (map snd (calculate_tf ws))"
  define F where "F = float_sum (map snd (calculate_tf ws))"
  have u: "0 \<le> u" by (simp add: u_def)
  have len: "length (map snd (calculate_tf ws)) = k" by (simp add: length_calculate_tf k_def)
  from float_sum_error[OF calculate_tf_nonneg, of ws]
  have e1: "\<bar>F - S\<bar> \<le> ((1 + u) ^ k - 1) * S"
    unfolding len by (simp add: F_def S_def u_def)
  from sum_calculate_tf[OF assms(1)] have e2: "\<bar>S - 1\<bar> \<le> u" by (simp add: S_def u_def)
  have "2 * real k * u \<le> 1" using assms(2) by (simp add: u_def k_def)
  from power_one_plus_le[OF u this] have p: "(1 + u) ^ k - 1 \<le> 2 * real k * u" by simp
  have p0: "0 \<le> (1 + u) ^ k - 1" using u by (simp add: one_le_power)
  have u1: "u \<le> 1 / 100" by (simp add: u_def)
  from e2 u1 have S2: "0 \<le> S" "S \<le> 101 / 100" by linarith+
  have "((1 + u) ^ k - 1) * S \<le> (2 * real k * u) * (101 / 100)"
    using p p0 S2 u by (intro mult_mono) simp_all
  with e1 e2 have "\<bar>F - 1\<bar> \<le> 202 / 100 * (real k * u) + u" by linarith
  also have "\<dots> \<le> 1 / 10 ^ 9"
  proof -
    from assms(2) have "real k \<le> 4000000" by (simp add: k_def)
    then have "real k * u \<le> 4000000 * u" using u by (rule mult_right_mono)
    then have "202 / 100 * (real k * u) + u \<le> 8080001 * u" by linarith
    also have "\<dots> \<le> 1 / 10 ^ 9" by (simp add: u_def)
    finally show ?thesis .
  qed
  finally show ?thesis by (simp add: F_def)
qed


lemma rounded_sum_calculate_tf:
  assumes "ws \<noteq> []"
  shows "\<bar>round_to_double (sum_list (map snd (calculate_tf ws))) - 1\<bar> \<le> 1 / 10 ^ 9"
proof -
  define S where "S = sum_list (map snd (calculate_tf ws))"
  from sum_calculate_tf[OF assms] have e: "\<bar>S - 1\<bar> \<le> 1 / 2 ^ 53" by (simp add: S_def)
  moreover have "(1::real) / 2 ^ 53 \<le> 1" by simp
  ultimately have "\<bar>S\<bar> \<le> 2" by linarith
  then have "\<bar>S\<bar> / 2 ^ 53 \<le> 2 / 2 ^ 53" by (rule divide_right_mono) simp
  with round_to_double_error[of S] e have "\<bar>round_to_double S - 1\<bar> \<le> 3 / 2 ^ 53" by linarith
  also have "\<dots> \<le> 1 / 10 ^ 9" by simp
  finally show ?thesis by (simp add: S_def)
qed

text \<open>
  C7. For a non-empty token list, \<^verbatim>\<open>calculate_tf\<close> returns one entry for each distinct
  term of the list and no other, and the value of a term is its count divided by the
  number of tokens, rounded to a double. The exact quotients \<open>count / total\<close> sum to
  exactly 1. The doubles returned sum, as real numbers, to 1 within \<open>2\<^sup>-\<^sup>5\<^sup>3\<close>; their
  correctly rounded sum (\<^verbatim>\<open>math.fsum\<close>) is within \<open>10\<^sup>-\<^sup>9\<close> of 1; and their sum by
  floating-point additions from left to right (the \<^verbatim>\<open>for\<close> loop that adds the values)
  is within \<open>10\<^sup>-\<^sup>9\<close> of 1 when the list has at most four million distinct terms.
\<close>

theorem term_frequencies_sum_to_one:
  assumes "doc_words \<noteq> []"
  shows "distinct (map fst (calculate_tf doc_words)) \<and>
         set (map fst (calculate_tf doc_words)) = set doc_words \<and>
         (\<forall>w \<in> set doc_words. map_of (calculate_tf doc_words) w =
            Some (round_to_double (real (count_list doc_words w) / real (length doc_words)))) \<and>
         (\<Sum>w \<in> set doc_words. real (count_list doc_words w) / real (length doc_words)) = 1 \<and>
         \<bar>sum_list (map snd (calculate_tf doc_words)) - 1\<bar> \<le> 1 / 2 ^ 53 \<and>
         \<bar>round_to_double (sum_list (map snd (calculate_tf doc_words))) - 1\<bar> \<le> 1 / 10 ^ 9 \<and>
         (card (set doc_words) \<le> 4000000 \<longrightarrow>
            \<bar>float_sum (map snd (calculate_tf doc_words)) - 1\<bar> \<le> 1 / 10 ^ 9)"
proof (intro conjI)
  show "distinct (map fst (calculate_tf doc_words))"
    by (simp only: keys_calculate_tf distinct_Counter)
  show "set (map fst (calculate_tf doc_words)) = set doc_words"
    using keys_Counter[of doc_words] by (simp only: keys_calculate_tf set_map)
  show "\<forall>w \<in> set doc_words. map_of (calculate_tf doc_words) w =
            Some (round_to_double (real (count_list doc_words w) / real (length doc_words)))"
    by (simp add: map_of_calculate_tf true_divide_def)
  show "(\<Sum>w \<in> set doc_words. real (count_list doc_words w) / real (length doc_words)) = 1"
    by (rule exact_frequencies_sum[OF assms])
  show "\<bar>sum_list (map snd (calculate_tf doc_words)) - 1\<bar> \<le> 1 / 2 ^ 53"
    by (rule sum_calculate_tf[OF assms])
  show "\<bar>round_to_double (sum_list (map snd (calculate_tf doc_words))) - 1\<bar> \<le> 1 / 10 ^ 9"
    by (rule rounded_sum_calculate_tf[OF assms])
  show "card (set doc_words) \<le> 4000000 \<longrightarrow>
            \<bar>float_sum (map snd (calculate_tf doc_words)) - 1\<bar> \<le> 1 / 10 ^ 9"
    using float_sum_calculate_tf[OF assms] by blast
qed

theorem term_frequencies_sum_to_one_witness:
  "map_of (calculate_tf [''cat'', ''mat'', ''cat'']) ''cat'' = Some (round_to_double (2 / 3)) \<and>
   \<bar>float_sum (map snd (calculate_tf [''cat'', ''mat'', ''cat''])) - 1\<bar> \<le> 1 / 10 ^ 9"
proof -
  have "card (set [''cat'', ''mat'', ''cat'']) \<le> 4000000"
    by (rule order_trans[OF card_length]) simp
  with term_frequencies_sum_to_one[of "[''cat'', ''mat'', ''cat'']"] show ?thesis by simp
qed

text \<open>The sum in floating point need not be 1.0: ten distinct terms have the
  frequency \<^verbatim>\<open>0.1\<close> each, and adding them gives \<^verbatim>\<open>0.9999999999999999\<close>.\<close>

lemma ten_terms_float_sum:
  "calculate_tf [''a'', ''b'', ''c'', ''d'', ''e'', ''f'', ''g'', ''h'', ''i'', ''j''] =
     map (\<lambda>w. (w, 3602879701896397 / 36028797018963968))
       [''a'', ''b'', ''c'', ''d'', ''e'', ''f'', ''g'', ''h'', ''i'', ''j''] \<and>
   float_sum (map snd (calculate_tf [''a'', ''b'', ''c'', ''d'', ''e'', ''f'', ''g'', ''h'', ''i'', ''j''])) =
     1 - 1 / 2 ^ 53"
  by code_simp

subsection \<open>Inverse document frequencies\<close>

lemma calculate_idf_lookup:
  "map_of (calculate_idf documents) term =
     (if \<exists>doc_words \<in> set documents. term \<in> set doc_words
      then Some (ln (real (length documents) / real (1 + document_frequency documents term)))
      else None)"
proof -
  let ?counts = "foldl (\<lambda>counts doc_words. foldl increment counts (remdups doc_words)) [] documents"
  have d: "distinct (map fst ?counts)" by (rule distinct_word_doc_counts) simp
  have "calculate_idf documents =
      map (\<lambda>(word, doc_count). (word, ln (real (length documents) / real (1 + doc_count)))) ?counts"
    using foldl_dict_set_fresh[OF d, of "[]"
        "\<lambda>doc_count. ln (real (length documents) / real (1 + doc_count))"]
    by (simp add: calculate_idf_def)
  then have "map_of (calculate_idf documents) term =
      map_option (\<lambda>doc_count. ln (real (length documents) / real (1 + doc_count)))
        (map_of ?counts term)"
    by (simp only: map_of_map_values)
  also have "map_of ?counts term =
      (if term \<in> fst ` set ?counts then Some (dict_get ?counts term 0) else None)"
    by (rule map_of_dict_get)
  also have "fst ` set ?counts = \<Union> (set ` set documents)"
    by (simp add: keys_word_doc_counts)
  also have "dict_get ?counts term 0 = document_frequency documents term"
    using dict_get_word_doc_counts[of "[]" documents "term"] by (simp add: dict_get_def[of "[]"])
  finally show ?thesis by auto
qed

text \<open>
  C8. \<^verbatim>\<open>calculate_idf\<close> gives every term that occurs in at least one document the
  value \<open>ln (N / (1 + df))\<close>, where \<open>N\<close> is the number of documents and \<open>df\<close> the
  number of documents that contain the term, and no value to any other term. For
  corpora of the same size the value is strictly smaller for a term of strictly larger
  document frequency, and it is negative for a term that occurs in every document
  (there is no clamping at zero).
\<close>

theorem idf_formula_and_monotonicity:
  "map_of (calculate_idf documents) term =
     (if \<exists>doc_words \<in> set documents. term \<in> set doc_words
      then Some (ln (real (length documents) / real (1 + document_frequency documents term)))
      else None) \<and>
   (length documents' = length documents \<and>
    document_frequency documents term < document_frequency documents' term' \<and>
    map_of (calculate_idf documents) term = Some x \<and>
    map_of (calculate_idf documents') term' = Some x' \<longrightarrow> x' < x) \<and>
   (documents \<noteq> [] \<and> document_frequency documents term = length documents \<longrightarrow>
    (\<exists>y. map_of (calculate_idf documents) term = Some y \<and> y < 0))"
proof (intro conjI impI)
  show "map_of (calculate_idf documents) term =
     (if \<exists>doc_words \<in> set documents. term \<in> set doc_words
      then Some (ln (real (length documents) / real (1 + document_frequency documents term)))
      else None)"
    by (rule calculate_idf_lookup)
next
  assume a: "length documents' = length documents \<and>
    document_frequency documents term < document_frequency documents' term' \<and>
    map_of (calculate_idf documents) term = Some x \<and>
    map_of (calculate_idf documents') term' = Some x'"
  let ?N = "real (length documents)"
  let ?df = "document_frequency documents term"
  let ?df' = "document_frequency documents' term'"
  from a have x: "x = ln (?N / real (1 + ?df))"
    by (auto simp: calculate_idf_lookup split: if_splits)
  from a have x': "x' = ln (?N / real (1 + ?df'))"
    by (auto simp: calculate_idf_lookup split: if_splits)
  from a have "documents \<noteq> []" by (auto simp: calculate_idf_lookup split: if_splits)
  then have N: "0 < ?N" by simp
  from a have "real (1 + ?df) < real (1 + ?df')" by simp
  with N have "?N / real (1 + ?df') < ?N / real (1 + ?df)"
    by (intro divide_strict_left_mono) simp_all
  moreover from N have "0 < ?N / real (1 + ?df')" by simp
  ultimately show "x' < x" using x x' by simp
next
  assume a: "documents \<noteq> [] \<and> document_frequency documents term = length documents"
  then have "0 < document_frequency documents term" by simp
  then have "\<exists>doc_words \<in> set documents. term \<in> set doc_words"
    by (auto simp: document_frequency_def filter_empty_conv)
  then have "map_of (calculate_idf documents) term =
      Some (ln (real (length documents) / real (1 + length documents)))"
    using a by (simp add: calculate_idf_lookup)
  moreover from a have "ln (real (length documents) / real (1 + length documents)) < 0"
    by (intro ln_less_zero) simp_all
  ultimately show "\<exists>y. map_of (calculate_idf documents) term = Some y \<and> y < 0" by blast
qed

theorem idf_formula_and_monotonicity_witness:
  "map_of (calculate_idf [[''cat''], [''cat'', ''dog''], [''emu'']]) ''dog'' = Some (ln (3 / 2)) \<and>
   (\<exists>y. map_of (calculate_idf [[''cat'']]) ''cat'' = Some y \<and> y < 0)"
  using idf_formula_and_monotonicity[of "[[''cat''], [''cat'', ''dog''], [''emu'']]" "''dog''"]
    idf_formula_and_monotonicity[of "[[''cat'']]" "''cat''"]
  by (simp add: document_frequency_def)


section \<open>The search engine of indexing.py\<close>

text \<open>
  The natural-language collaborators are parameters, collected in a record:
  \<^verbatim>\<open>str.lower\<close>, nltk's \<^verbatim>\<open>word_tokenize\<close> and \<^verbatim>\<open>pos_tag\<close>, the lemmatizer, and for
  \<^verbatim>\<open>wordnet.synsets(word)\<close> the lemma names of each synset. \<open>set_order\<close> is the order
  in which Python iterates a \<^verbatim>\<open>set\<close> built from the given elements.
\<close>

record nlp =
  lower :: "string \<Rightarrow> string"
  word_tokenize :: "string \<Rightarrow> string list"
  pos_tag :: "string list \<Rightarrow> (string \<times> string) list"
  lemmatize :: "string \<Rightarrow> string"
  synsets :: "string \<Rightarrow> string list list"
  set_order :: "string list \<Rightarrow> string list"

definition is_noun :: "string \<Rightarrow> bool" where
  "is_noun pos = (pos \<in> set [''NN'', ''NNS'', ''NNP'', ''NNPS''])"

definition get_synonyms :: "nlp \<Rightarrow> string \<Rightarrow> string list" where
  "get_synonyms nlp word = map (lower nlp) (concat (synsets nlp word))"

definition expand_query_with_synonyms :: "nlp \<Rightarrow> string list \<Rightarrow> string list" where
  "expand_query_with_synonyms nlp query_tokens =
     set_order nlp (query_tokens @ concat (map (get_synonyms nlp) query_tokens))"

definition extract_nouns_and_entities :: "nlp \<Rightarrow> string \<Rightarrow> string list" where
  "extract_nouns_and_entities nlp content =
     (let words = word_tokenize nlp (lower nlp content);
          pos_tags = pos_tag nlp words;
          nouns = map fst (filter (\<lambda>(word, pos). is_noun pos) pos_tags)
      in map (lemmatize nlp) nouns)"

text \<open>The loop of \<^verbatim>\<open>phrase_match\<close> over the window positions \<open>i\<close>.\<close>

fun match_window :: "'a list \<Rightarrow> 'a list \<Rightarrow> nat list \<Rightarrow> bool" where
  "match_window content_words query_words [] = False"
| "match_window content_words query_words (i # positions) =
     (if take (length query_words) (drop i content_words) = query_words then True
      else match_window content_words query_words positions)"

definition phrase_match :: "nlp \<Rightarrow> string \<Rightarrow> string \<Rightarrow> bool" where
  "phrase_match nlp content query =
     (let content_words = word_tokenize nlp (lower nlp content);
          query_words = word_tokenize nlp (lower nlp query)
      in match_window content_words query_words
           [0 ..< nat (int (length content_words) - int (length query_words) + 1)])"

lemma match_window_iff:
  "match_window cw qw positions = (\<exists>i \<in> set positions. take (length qw) (drop i cw) = qw)"
  by (induction positions) auto

lemma phrase_match_sublist:
  "phrase_match nlp content query =
     sublist (word_tokenize nlp (lower nlp query)) (word_tokenize nlp (lower nlp content))"
proof -
  let ?cw = "word_tokenize nlp (lower nlp content)"
  let ?qw = "word_tokenize nlp (lower nlp query)"
  have "(\<exists>i \<in> set [0 ..< nat (int (length ?cw) - int (length ?qw) + 1)].
            take (length ?qw) (drop i ?cw) = ?qw) = sublist ?qw ?cw"
  proof
    assume "\<exists>i \<in> set [0 ..< nat (int (length ?cw) - int (length ?qw) + 1)].
            take (length ?qw) (drop i ?cw) = ?qw"
    then obtain i where i: "take (length ?qw) (drop i ?cw) = ?qw" by blast
    have "?cw = take i ?cw @ take (length ?qw) (drop i ?cw) @ drop (length ?qw) (drop i ?cw)"
      by (simp only: append_take_drop_id)
    with i have "?cw = take i ?cw @ ?qw @ drop (length ?qw) (drop i ?cw)" by simp
    then show "sublist ?qw ?cw" unfolding sublist_def by blast
  next
    assume "sublist ?qw ?cw"
    then obtain ps ss where c: "?cw = ps @ ?qw @ ss" unfolding sublist_def by blast
    then have "length ?cw = length ps + length ?qw + length ss" 
      by (metis length_append add.assoc)
    then have "length ps < nat (int (length ?cw) - int (length ?qw) + 1)" by simp
    moreover have "take (length ?qw) (drop (length ps) ?cw) = ?qw"
      by (subst c) simp
    ultimately show "\<exists>i \<in> set [0 ..< nat (int (length ?cw) - int (length ?qw) + 1)].
            take (length ?qw) (drop i ?cw) = ?qw"
      by auto
  qed
  then show ?thesis by (simp add: phrase_match_def match_window_iff)
qed


text \<open>\<^verbatim>\<open>calculate_tfidf\<close>: \<^verbatim>\<open>tf[word]\<close> raises \<^verbatim>\<open>KeyError\<close> for a word that \<open>tf\<close>
  does not hold.\<close>

fun tfidf_loop :: "string list \<Rightarrow> (string \<times> real) list \<Rightarrow> (string \<times> real) list \<Rightarrow>
    (string \<times> real) list \<Rightarrow> error + (string \<times> real) list" where
  "tfidf_loop [] tf idf tfidf = Inr tfidf"
| "tfidf_loop (word # doc_words) tf idf tfidf =
     (case map_of idf word of
        None \<Rightarrow> tfidf_loop doc_words tf idf tfidf
      | Some idf_word \<Rightarrow>
          (case map_of tf word of
             None \<Rightarrow> Inl KeyError
           | Some tf_word \<Rightarrow> tfidf_loop doc_words tf idf (dict_set tfidf word (tf_word * idf_word))))"

definition calculate_tfidf :: "string list \<Rightarrow> (string \<times> real) list \<Rightarrow> (string \<times> real) list \<Rightarrow>
    error + (string \<times> real) list" where
  "calculate_tfidf doc_words tf idf = tfidf_loop doc_words tf idf []"

text \<open>
  \<^verbatim>\<open>SearchEngine\<close> of indexing.py: \<open>index\<close> is a \<^verbatim>\<open>defaultdict(list)\<close>, \<open>documents\<close> a
  \<^verbatim>\<open>dict\<close> from title to content. \<open>append_posting\<close> is
  \<^verbatim>\<open>self.index[term].append(doc_id)\<close>. The significance threshold (0.1 in indexing.py,
  0.01 in Indexing_App.py) is the parameter \<open>threshold\<close>.
\<close>

record SearchEngine =
  index :: "(string \<times> string list) list"
  documents :: "(string \<times> string) list"

definition append_posting :: "(string \<times> string list) list \<Rightarrow> string \<Rightarrow> string \<Rightarrow>
    (string \<times> string list) list" where
  "append_posting idx term_key doc_id = dict_set idx term_key (dict_get idx term_key [] @ [doc_id])"

fun index_documents :: "nlp \<Rightarrow> real \<Rightarrow> (string \<times> real) list \<Rightarrow> (string \<times> string) list \<Rightarrow>
    (string \<times> string list) list \<Rightarrow> error + (string \<times> string list) list" where
  "index_documents nlp threshold idf [] idx = Inr idx"
| "index_documents nlp threshold idf ((doc_id, content) # docs) idx =
     (let doc_words = extract_nouns_and_entities nlp content;
          tf = calculate_tf doc_words
      in case calculate_tfidf doc_words tf idf of
           Inl e \<Rightarrow> Inl e
         | Inr tfidf \<Rightarrow>
             (let important_terms = map fst (filter (\<lambda>(term_key, score). threshold < score) tfidf)
              in index_documents nlp threshold idf docs
                   (foldl (\<lambda>idx term_key. append_posting idx term_key doc_id) idx important_terms)))"

definition update_index :: "nlp \<Rightarrow> real \<Rightarrow> SearchEngine \<Rightarrow> error + SearchEngine" where
  "update_index nlp threshold se =
     (let doc_word_list = map (\<lambda>(doc_id, content). extract_nouns_and_entities nlp content)
                            (documents se);
          idf = calculate_idf doc_word_list
      in case index_documents nlp threshold idf (documents se) [] of
           Inl e \<Rightarrow> Inl e
         | Inr idx \<Rightarrow> Inr (se\<lparr>index := idx\<rparr>))"

definition search_by_title :: "nlp \<Rightarrow> SearchEngine \<Rightarrow> string \<Rightarrow> string list" where
  "search_by_title nlp se query =
     filter (\<lambda>doc_id. sublist (lower nlp query) (lower nlp doc_id)) (map fst (documents se))"

text \<open>
  \<^verbatim>\<open>search_by_content\<close> of indexing.py. It reads the index with \<^verbatim>\<open>dict.get\<close>,
  \<^verbatim>\<open>in\<close> and, for a key that is present, \<^verbatim>\<open>[]\<close>: none of them inserts into a
  \<^verbatim>\<open>defaultdict\<close>, so the engine is not part of the result. \<^verbatim>\<open>self.documents[doc_id]\<close>
  raises \<^verbatim>\<open>KeyError\<close> for an indexed document that the store does not hold.
\<close>

definition phrase_matches :: "nlp \<Rightarrow> (string \<times> string) list \<Rightarrow> string \<Rightarrow> string set" where
  "phrase_matches nlp docs query =
     set (map fst (filter (\<lambda>(doc_id, content). phrase_match nlp content query) docs))"

definition contains_all :: "nlp \<Rightarrow> string list \<Rightarrow> string \<Rightarrow> bool" where
  "contains_all nlp tokens content =
     list_all (\<lambda>token. sublist (lower nlp token) (lower nlp content)) tokens"

definition search_by_content :: "nlp \<Rightarrow> SearchEngine \<Rightarrow> string \<Rightarrow> error + string set" where
  "search_by_content nlp se query =
     (let matching_docs = phrase_matches nlp (documents se) query
      in if matching_docs \<noteq> {} then Inr matching_docs
         else
           (let query_tokens = word_tokenize nlp (lower nlp query);
                query_pos_tags = pos_tag nlp query_tokens;
                query_nouns = map fst (filter (\<lambda>(word, pos). is_noun pos) query_pos_tags);
                expanded_noun_tokens =
                  concat (map (\<lambda>noun. expand_query_with_synonyms nlp [noun]) query_nouns);
                noun_matching_docs =
                  (case expanded_noun_tokens of
                     [] \<Rightarrow> {}
                   | first_token # more_tokens \<Rightarrow>
                       foldl (\<lambda>docs token.
                                if map_of (index se) token \<noteq> None
                                then docs \<inter> set (dict_get (index se) token [])
                                else docs)
                             (set (dict_get (index se) first_token [])) more_tokens)
            in if noun_matching_docs \<noteq> {} then
                 (let non_noun_tokens =
                        map fst (filter (\<lambda>(word, pos). \<not> is_noun pos) query_pos_tags)
                  in if non_noun_tokens = [] then Inr noun_matching_docs
                     else if \<exists>doc_id \<in> noun_matching_docs. map_of (documents se) doc_id = None
                     then Inl KeyError
                     else Inr {doc_id \<in> noun_matching_docs.
                                contains_all nlp non_noun_tokens
                                  (dict_get (documents se) doc_id [])})
               else Inr (set (map fst (filter (\<lambda>(doc_id, content).
                                contains_all nlp query_tokens content) (documents se))))))"

text \<open>A small collaborator for the examples: lower-case input, tokens separated by
  spaces, a fixed list of nouns, one synonym.\<close>

fun split_on_space :: "string \<Rightarrow> string \<Rightarrow> string list" where
  "split_on_space [] word = (if word = [] then [] else [word])"
| "split_on_space (c # cs) word =
     (if c = CHR '' '' then (if word = [] then split_on_space cs [] else word # split_on_space cs [])
      else split_on_space cs (word @ [c]))"

definition example_nlp :: nlp where
  "example_nlp =
     \<lparr>lower = (\<lambda>s. s),
      word_tokenize = (\<lambda>s. split_on_space s []),
      pos_tag = map (\<lambda>w. (w, if w \<in> set [''cat'', ''dog'', ''mat'', ''rug'', ''feline'', ''emu'']
                               then ''NN'' else ''DT'')),
      lemmatize = (\<lambda>w. w),
      synsets = (\<lambda>w. if w = ''feline'' then [[''cat'']] else []),
      set_order = remdups\<rparr>"

definition example_engine :: SearchEngine where
  "example_engine =
     \<lparr>index = [],
      documents = [(''doc1'', ''the cat sat on the mat''), (''doc2'', ''the dog sat on the rug''),
                   (''doc3'', ''an emu'')]\<rparr>"

text \<open>
  C4. \<^verbatim>\<open>phrase_match(content, query)\<close> is true exactly when the token sequence of the
  lower-cased query occurs as a contiguous subsequence of the token sequence of the
  lower-cased content; and when at least one document phrase-matches,
  \<^verbatim>\<open>search_by_content\<close> returns exactly the set of phrase-matching documents, whatever
  the index holds.
\<close>

theorem phrase_match_and_phase_a:
  "phrase_match nlp content query =
     sublist (word_tokenize nlp (lower nlp query)) (word_tokenize nlp (lower nlp content)) \<and>
   ((\<exists>(doc_id, content) \<in> set (documents se). phrase_match nlp content query) \<longrightarrow>
      search_by_content nlp se query =
        Inr {doc_id. \<exists>content. (doc_id, content) \<in> set (documents se) \<and>
                   phrase_match nlp content query})"
proof (intro conjI impI)
  show "phrase_match nlp content query =
     sublist (word_tokenize nlp (lower nlp query)) (word_tokenize nlp (lower nlp content))"
    by (rule phrase_match_sublist)
next
  assume a: "\<exists>(doc_id, content) \<in> set (documents se). phrase_match nlp content query"
  have e: "phrase_matches nlp (documents se) query =
      {doc_id. \<exists>content. (doc_id, content) \<in> set (documents se) \<and> phrase_match nlp content query}"
    by (force simp: phrase_matches_def)
  with a have "phrase_matches nlp (documents se) query \<noteq> {}" by auto
  with e show "search_by_content nlp se query =
        Inr {doc_id. \<exists>content. (doc_id, content) \<in> set (documents se) \<and>
                   phrase_match nlp content query}"
    by (simp add: search_by_content_def)
qed



lemma example_phrase_match:
  "phrase_match example_nlp ''the cat sat on the mat'' ''sat on the mat''"
  by code_simp

theorem phrase_match_and_phase_a_witness:
  "phrase_match example_nlp ''the cat sat on the mat'' ''sat on the mat'' =
     sublist (word_tokenize example_nlp (lower example_nlp ''sat on the mat''))
       (word_tokenize example_nlp (lower example_nlp ''the cat sat on the mat'')) \<and>
   search_by_content example_nlp example_engine ''sat on the mat'' =
     Inr {doc_id. \<exists>content. (doc_id, content) \<in> set (documents example_engine) \<and>
                phrase_match example_nlp content ''sat on the mat''}"
  using phrase_match_and_phase_a[of example_nlp "''the cat sat on the mat''" "''sat on the mat''"
      example_engine] example_phrase_match
  by (simp add: example_engine_def)

lemma example_phase_a:
  "search_by_content example_nlp example_engine ''sat on the mat'' = Inr {''doc1''}"
  by code_simp

text \<open>
  C6 as stated (a query without tokens gives the empty result) fails: the empty query
  phrase-matches every document, because the window of length 0 at position 0 equals
  the empty token list.
\<close>

theorem empty_query_counterexample:
  "word_tokenize example_nlp (lower example_nlp []) = [] \<and>
   search_by_content example_nlp example_engine [] = Inr {''doc1'', ''doc2'', ''doc3''} \<and>
   search_by_content example_nlp example_engine [] \<noteq> Inr {}"
  by code_simp

lemma phrase_match_empty_query:
  "word_tokenize nlp (lower nlp query) = [] \<Longrightarrow> phrase_match nlp content query"
  by (simp add: phrase_match_sublist)

text \<open>
  C6, amended. For a query whose tokenization yields no token \<^verbatim>\<open>search_by_content\<close>
  raises no error and returns the set of all document ids of a non-empty corpus
  (every document phrase-matches); it returns the empty set only when the corpus is
  empty (the tagger giving no tags for no tokens).
\<close>

theorem empty_query_matches_every_document:
  assumes "word_tokenize nlp (lower nlp query) = []"
  shows "(documents se \<noteq> [] \<longrightarrow>
            search_by_content nlp se query = Inr (set (map fst (documents se)))) \<and>
         (documents se = [] \<and> pos_tag nlp [] = [] \<longrightarrow>
            search_by_content nlp se query = Inr {})"
proof (intro conjI impI)
  have all: "phrase_matches nlp (documents se) query = set (map fst (documents se))"
    using phrase_match_empty_query[OF assms]
    by (simp add: phrase_matches_def split_def)
  {
    assume "documents se \<noteq> []"
    with all show "search_by_content nlp se query = Inr (set (map fst (documents se)))"
      by (simp add: search_by_content_def)
  }
  {
    assume "documents se = [] \<and> pos_tag nlp [] = []"
    with assms show "search_by_content nlp se query = Inr {}"
      by (simp add: search_by_content_def phrase_matches_def)
  }
qed

theorem empty_query_matches_every_document_witness:
  "search_by_content example_nlp example_engine [] = Inr (set (map fst (documents example_engine)))"
  using empty_query_matches_every_document[of example_nlp "[]" example_engine]
  by (simp add: example_nlp_def example_engine_def)


section \<open>The default dictionary and the search engine of Indexing_App.py\<close>

text \<open>
  \<^verbatim>\<open>CustomDefaultDict\<close> extends \<^verbatim>\<open>CustomDictionary\<close> by the field \<^verbatim>\<open>default_factory\<close>,
  which is assigned in \<^verbatim>\<open>__init__\<close> only: its state is the state of the dictionary it
  extends, and the value that the factory returns is the parameter \<open>default_factory\<close>
  (\<open>None\<close> when there is no factory). \<open>default_getitem\<close> is the overriding
  \<^verbatim>\<open>__getitem__\<close>: on a \<^verbatim>\<open>KeyError\<close> of the inherited \<^verbatim>\<open>__getitem__\<close> it stores the
  default under the key and evaluates \<^verbatim>\<open>self[key]\<close>, which is the overriding method
  again. For a key that is not \<^verbatim>\<open>==\<close> to itself this recursion does not end (Python
  stops it with a \<^verbatim>\<open>RecursionError\<close>): the result is \<open>None\<close>. The result holds the
  value and the state after the call.
\<close>

partial_function (option) default_getitem ::
    "'a key_ops \<Rightarrow> 'v option \<Rightarrow> ('a, 'v) CustomDictionary \<Rightarrow> 'a key \<Rightarrow>
     (error + 'v \<times> ('a, 'v) CustomDictionary) option" where
  "default_getitem ops default_factory d key =
     (case getitem ops d key of
        Inr val \<Rightarrow> Some (Inr (val, d))
      | Inl e \<Rightarrow>
          if e \<noteq> KeyError then Some (Inl e)
          else
            (case default_factory of
               None \<Rightarrow> Some (Inl KeyError)
             | Some default_value \<Rightarrow>
                 (case setitem ops d key default_value of
                    Inl e' \<Rightarrow> Some (Inl e')
                  | Inr d' \<Rightarrow> default_getitem ops default_factory d' key)))"

declare default_getitem.simps [code]

text \<open>
  \<^verbatim>\<open>get\<close> is inherited from \<^verbatim>\<open>CustomDictionary\<close>; its \<^verbatim>\<open>self[key]\<close> is the overriding
  \<^verbatim>\<open>__getitem__\<close> when the object is a \<^verbatim>\<open>CustomDefaultDict\<close>.
\<close>

definition default_get ::
    "'a key_ops \<Rightarrow> 'v option \<Rightarrow> ('a, 'v) CustomDictionary \<Rightarrow> 'a key \<Rightarrow> 'v \<Rightarrow>
     (error + 'v \<times> ('a, 'v) CustomDictionary) option" where
  "default_get ops default_factory d key default_value =
     (case default_getitem ops default_factory d key of
        None \<Rightarrow> None
      | Some (Inr result) \<Rightarrow> Some (Inr result)
      | Some (Inl e) \<Rightarrow> if e = KeyError then Some (Inr (default_value, d)) else Some (Inl e))"

text \<open>
  \<^verbatim>\<open>SearchEngine\<close> of Indexing_App.py: \<open>app_index\<close> is a \<^verbatim>\<open>CustomDefaultDict(list)\<close>
  from a term to the list of the documents' titles, \<open>app_documents\<close> a
  \<^verbatim>\<open>CustomDictionary\<close> from title to content. \<^verbatim>\<open>search_by_content\<close> reads the index
  with \<^verbatim>\<open>self.index.get(term, [])\<close>; the result holds the documents found and the
  index after the call.
\<close>

record 'a App_SearchEngine =
  app_index :: "('a, 'a key list) CustomDictionary"
  app_documents :: "('a, string) CustomDictionary"

fun union_postings ::
    "'a key_ops \<Rightarrow> ('a, 'a key list) CustomDictionary \<Rightarrow> string list \<Rightarrow> 'a key set \<Rightarrow>
     (error + 'a key set \<times> ('a, 'a key list) CustomDictionary) option" where
  "union_postings ops idx [] docs = Some (Inr (docs, idx))"
| "union_postings ops idx (synonym # synonyms) docs =
     (case default_get ops (Some []) idx (Str synonym) [] of
        None \<Rightarrow> None
      | Some (Inl e) \<Rightarrow> Some (Inl e)
      | Some (Inr (posting, idx')) \<Rightarrow> union_postings ops idx' synonyms (docs \<union> set posting))"

definition group_postings ::
    "'a key_ops \<Rightarrow> ('a, 'a key list) CustomDictionary \<Rightarrow> string \<Rightarrow> string list \<Rightarrow>
     (error + 'a key set \<times> ('a, 'a key list) CustomDictionary) option" where
  "group_postings ops idx noun synonyms =
     (case default_get ops (Some []) idx (Str noun) [] of
        None \<Rightarrow> None
      | Some (Inl e) \<Rightarrow> Some (Inl e)
      | Some (Inr (posting, idx')) \<Rightarrow> union_postings ops idx' synonyms (set posting))"

fun intersect_groups ::
    "'a key_ops \<Rightarrow> ('a, 'a key list) CustomDictionary \<Rightarrow> (string \<times> string list) list \<Rightarrow>
     'a key set \<Rightarrow> (error + 'a key set \<times> ('a, 'a key list) CustomDictionary) option" where
  "intersect_groups ops idx [] noun_matching_docs = Some (Inr (noun_matching_docs, idx))"
| "intersect_groups ops idx ((noun, synonyms) # groups) noun_matching_docs =
     (case group_postings ops idx noun synonyms of
        None \<Rightarrow> None
      | Some (Inl e) \<Rightarrow> Some (Inl e)
      | Some (Inr (current_docs, idx')) \<Rightarrow>
          intersect_groups ops idx' groups (noun_matching_docs \<inter> current_docs))"

definition app_phrase_matches :: "nlp \<Rightarrow> ('k \<times> string) list \<Rightarrow> string \<Rightarrow> 'k set" where
  "app_phrase_matches nlp docs query =
     set (map fst (filter (\<lambda>(doc_id, content). phrase_match nlp content query) docs))"

definition app_search_by_content ::
    "nlp \<Rightarrow> 'a key_ops \<Rightarrow> 'a App_SearchEngine \<Rightarrow> string \<Rightarrow>
     (error + 'a key set \<times> ('a, 'a key list) CustomDictionary) option" where
  "app_search_by_content nlp ops se query =
     (let matching_docs = app_phrase_matches nlp (items (app_documents se)) query
      in if matching_docs \<noteq> {} then Some (Inr (matching_docs, app_index se))
         else
           (let query_tokens = word_tokenize nlp (lower nlp query);
                query_pos_tags = pos_tag nlp query_tokens;
                query_nouns = map fst (filter (\<lambda>(word, pos). is_noun pos) query_pos_tags);
                expanded_noun_tokens =
                  foldl (\<lambda>expanded noun.
                           dict_set expanded noun (expand_query_with_synonyms nlp [noun]))
                        [] query_nouns
            in case expanded_noun_tokens of
                 [] \<Rightarrow> Some (Inr ({}, app_index se))
               | (first_noun, synonyms) # groups \<Rightarrow>
                   (case group_postings ops (app_index se) first_noun synonyms of
                      None \<Rightarrow> None
                    | Some (Inl e) \<Rightarrow> Some (Inl e)
                    | Some (Inr (noun_matching_docs, idx)) \<Rightarrow>
                        intersect_groups ops idx groups noun_matching_docs)))"

text \<open>An example: one document, indexed under its two nouns.\<close>

definition app_example :: "int App_SearchEngine" where
  "app_example =
     \<lparr>app_index =
        \<lparr>capacity = 4, size' = 2,
         buckets = [[(Str ''mat'', [Str ''doc1''])], [], [(Str ''cat'', [Str ''doc1''])], []]\<rparr>,
      app_documents =
        \<lparr>capacity = 4, size' = 1,
         buckets = [[], [(Str ''doc1'', ''the cat sat on the mat'')], [], []]\<rparr>\<rparr>"

text \<open>The posting list of a term in the claims: the list stored under the term, the
  empty list when the term is not a key. \<open>added m terms\<close> is the mapping \<open>m\<close> with the
  empty list stored under each of the \<open>terms\<close> that is not a key of \<open>m\<close>.\<close>

definition posting :: "('a, 'a key list) CustomDictionary \<Rightarrow> string \<Rightarrow> 'a key list" where
  "posting idx term_key = (case mapping_of idx (Str term_key) of Some docs \<Rightarrow> docs | None \<Rightarrow> [])"

definition added :: "('a key \<rightharpoonup> 'v list) \<Rightarrow> string set \<Rightarrow> ('a key \<rightharpoonup> 'v list)" where
  "added m terms = (\<lambda>k. if m k = None \<and> k \<in> Str ` terms then Some [] else m k)"

lemma added_empty: "added m {} = m"
  by (simp add: added_def)

lemma added_added: "added (added m A) B = added m (A \<union> B)"
  by (auto simp: added_def fun_eq_iff)

lemma posting_added:
  "mapping_of idx' = added (mapping_of idx) A \<Longrightarrow> posting idx' t = posting idx t"
  by (simp add: posting_def added_def)

lemma default_get_list:
  assumes inv: "invar ops idx"
  shows "\<exists>idx'. default_get ops (Some []) idx (Str t) [] = Some (Inr (posting idx t, idx')) \<and>
           invar ops idx' \<and> mapping_of idx' = added (mapping_of idx) {t}"
proof (cases "mapping_of idx (Str t)")
  case (Some docs)
  with getitem_mapping[OF inv, of "Str t"] have "getitem ops idx (Str t) = Inr docs" by simp
  then have "default_get ops (Some []) idx (Str t) [] = Some (Inr (docs, idx))"
    by (simp add: default_get_def default_getitem.simps)
  moreover from Some have "mapping_of idx = added (mapping_of idx) {t}"
    by (auto simp: added_def fun_eq_iff)
  ultimately show ?thesis using inv Some by (auto simp: posting_def)
next
  case None
  with getitem_mapping[OF inv, of "Str t"] have g: "getitem ops idx (Str t) = Inl KeyError" by simp
  from setitem_ok[OF inv, of "Str t" "[]"] obtain idx' where
    s: "setitem ops idx (Str t) [] = Inr idx'" "invar ops idx'"
       "mapping_of idx' = (mapping_of idx)(Str t \<mapsto> [])" by blast
  from getitem_mapping[OF s(2), of "Str t"] s(3) have g': "getitem ops idx' (Str t) = Inr []" by simp
  have "default_getitem ops (Some []) idx' (Str t) = Some (Inr ([], idx'))"
    by (subst default_getitem.simps) (simp add: g')
  then have "default_getitem ops (Some []) idx (Str t) = Some (Inr ([], idx'))"
    by (subst default_getitem.simps) (simp add: g s(1))
  then have "default_get ops (Some []) idx (Str t) [] = Some (Inr ([], idx'))"
    by (simp add: default_get_def)
  moreover from None s(3) have "mapping_of idx' = added (mapping_of idx) {t}"
    by (auto simp: added_def fun_eq_iff)
  ultimately show ?thesis using s(2) None by (auto simp: posting_def)
qed

lemma union_postings_result:
  "invar ops idx \<Longrightarrow>
     \<exists>idx'. union_postings ops idx ts docs =
              Some (Inr (docs \<union> (\<Union>t \<in> set ts. set (posting idx t)), idx')) \<and>
            invar ops idx' \<and> mapping_of idx' = added (mapping_of idx) (set ts)"
proof (induction ts arbitrary: idx docs)
  case Nil
  then show ?case by (simp add: added_empty)
next
  case (Cons t ts)
  from default_get_list[OF Cons.prems, of t] obtain idx1 where
    g: "default_get ops (Some []) idx (Str t) [] = Some (Inr (posting idx t, idx1))"
       "invar ops idx1" "mapping_of idx1 = added (mapping_of idx) {t}" by blast
  from Cons.IH[OF g(2), of "docs \<union> set (posting idx t)"] obtain idx' where
    r: "union_postings ops idx1 ts (docs \<union> set (posting idx t)) =
          Some (Inr (docs \<union> set (posting idx t) \<union> (\<Union>t \<in> set ts. set (posting idx1 t)), idx'))"
       "invar ops idx'" "mapping_of idx' = added (mapping_of idx1) (set ts)" by blast
  have p: "\<And>t. posting idx1 t = posting idx t" using posting_added[OF g(3)] .
  have "mapping_of idx' = added (mapping_of idx) (set (t # ts))"
    using r(3) g(3) by (simp add: added_added)
  moreover have "union_postings ops idx (t # ts) docs =
      Some (Inr (docs \<union> (\<Union>t \<in> set (t # ts). set (posting idx t)), idx'))"
    using g(1) r(1) by (simp add: p Un_assoc)
  ultimately show ?case using r(2) by blast
qed

lemma group_postings_result:
  assumes inv: "invar ops idx"
  shows "\<exists>idx'. group_postings ops idx noun synonyms =
              Some (Inr (\<Union>t \<in> insert noun (set synonyms). set (posting idx t), idx')) \<and>
            invar ops idx' \<and> mapping_of idx' = added (mapping_of idx) (insert noun (set synonyms))"
proof -
  from default_get_list[OF inv, of noun] obtain idx1 where
    g: "default_get ops (Some []) idx (Str noun) [] = Some (Inr (posting idx noun, idx1))"
       "invar ops idx1" "mapping_of idx1 = added (mapping_of idx) {noun}" by blast
  from union_postings_result[OF g(2), of synonyms "set (posting idx noun)"] obtain idx' where
    r: "union_postings ops idx1 synonyms (set (posting idx noun)) =
          Some (Inr (set (posting idx noun) \<union> (\<Union>t \<in> set synonyms. set (posting idx1 t)), idx'))"
       "invar ops idx'" "mapping_of idx' = added (mapping_of idx1) (set synonyms)" by blast
  have p: "\<And>t. posting idx1 t = posting idx t" using posting_added[OF g(3)] .
  have "mapping_of idx' = added (mapping_of idx) (insert noun (set synonyms))"
    using r(3) g(3) by (simp add: added_added)
  moreover have "group_postings ops idx noun synonyms =
      Some (Inr (\<Union>t \<in> insert noun (set synonyms). set (posting idx t), idx'))"
    using g(1) r(1) by (simp add: group_postings_def p)
  ultimately show ?thesis using r(2) by blast
qed

text \<open>The documents of a synonym group: those on the posting list of the noun or of
  one of its synonyms.\<close>

definition group_docs :: "('a, 'a key list) CustomDictionary \<Rightarrow> string \<Rightarrow> string list \<Rightarrow> 'a key set" where
  "group_docs idx noun synonyms = (\<Union>t \<in> insert noun (set synonyms). set (posting idx t))"

lemma group_docs_added:
  "mapping_of idx' = added (mapping_of idx) A \<Longrightarrow> group_docs idx' noun synonyms = group_docs idx noun synonyms"
  using posting_added[of idx' idx A] by (simp add: group_docs_def)

lemma intersect_groups_result:
  "invar ops idx \<Longrightarrow>
     \<exists>idx'. intersect_groups ops idx groups docs =
              Some (Inr (docs \<inter> (\<Inter>(noun, synonyms) \<in> set groups. group_docs idx noun synonyms), idx')) \<and>
            invar ops idx' \<and>
            mapping_of idx' =
              added (mapping_of idx) (\<Union>(noun, synonyms) \<in> set groups. insert noun (set synonyms))"
proof (induction groups arbitrary: idx docs)
  case Nil
  then show ?case by (simp add: added_empty)
next
  case (Cons g groups)
  obtain noun synonyms where g: "g = (noun, synonyms)" by (cases g)
  from group_postings_result[OF Cons.prems, of noun synonyms] obtain idx1 where
    a: "group_postings ops idx noun synonyms = Some (Inr (group_docs idx noun synonyms, idx1))"
       "invar ops idx1"
       "mapping_of idx1 = added (mapping_of idx) (insert noun (set synonyms))"
    unfolding group_docs_def by blast
  from Cons.IH[OF a(2), of "docs \<inter> group_docs idx noun synonyms"] obtain idx' where
    r: "intersect_groups ops idx1 groups (docs \<inter> group_docs idx noun synonyms) =
          Some (Inr (docs \<inter> group_docs idx noun synonyms \<inter>
                (\<Inter>(noun, synonyms) \<in> set groups. group_docs idx1 noun synonyms), idx'))"
       "invar ops idx'"
       "mapping_of idx' =
          added (mapping_of idx1) (\<Union>(noun, synonyms) \<in> set groups. insert noun (set synonyms))"
    by blast
  have p: "\<And>noun synonyms. group_docs idx1 noun synonyms = group_docs idx noun synonyms"
    using group_docs_added[OF a(3)] .
  have "mapping_of idx' =
      added (mapping_of idx) (\<Union>(noun, synonyms) \<in> set (g # groups). insert noun (set synonyms))"
    using r(3) a(3) by (simp add: added_added g)
  moreover have "intersect_groups ops idx (g # groups) docs =
      Some (Inr (docs \<inter> (\<Inter>(noun, synonyms) \<in> set (g # groups). group_docs idx noun synonyms), idx'))"
    using a(1) r(1) by (simp add: g p Int_assoc)
  ultimately show ?case using r(2) by blast
qed

lemma set_foldl_dict_set:
  "\<forall>(k, v) \<in> set acc. v = f k \<Longrightarrow>
     set (foldl (\<lambda>d k. dict_set d k (f k)) acc ks) = set acc \<union> (\<lambda>k. (k, f k)) ` set ks"
proof (induction ks arbitrary: acc)
  case Nil
  then show ?case by simp
next
  case (Cons k ks)
  have s: "set (dict_set acc k (f k)) = insert (k, f k) (set acc)"
    using Cons.prems by (induction acc k "f k" rule: dict_set.induct) auto
  then have "\<forall>(k', v) \<in> set (dict_set acc k (f k)). v = f k'" using Cons.prems by auto
  from Cons.IH[OF this] s show ?case by auto
qed


text \<open>The nouns of a query, and the terms that the semantic phase looks up in the
  index: each noun and the members of its synonym group.\<close>

definition query_nouns :: "nlp \<Rightarrow> string \<Rightarrow> string list" where
  "query_nouns nlp query =
     map fst (filter (\<lambda>(word, pos). is_noun pos) (pos_tag nlp (word_tokenize nlp (lower nlp query))))"

definition looked_up :: "nlp \<Rightarrow> string \<Rightarrow> string set" where
  "looked_up nlp query =
     (\<Union>noun \<in> set (query_nouns nlp query). insert noun (set (expand_query_with_synonyms nlp [noun])))"

lemma app_search_semantic:
  assumes inv: "invar ops (app_index se)"
    and no_phrase: "app_phrase_matches nlp (items (app_documents se)) query = {}"
  shows "\<exists>idx'. app_search_by_content nlp ops se query =
            Some (Inr (if query_nouns nlp query = [] then {}
                       else (\<Inter>noun \<in> set (query_nouns nlp query).
                               group_docs (app_index se) noun (expand_query_with_synonyms nlp [noun])),
                       idx')) \<and>
           invar ops idx' \<and>
           mapping_of idx' = added (mapping_of (app_index se)) (looked_up nlp query)"
proof -
  define f where "f = (\<lambda>noun. expand_query_with_synonyms nlp [noun])"
  define nouns where "nouns = query_nouns nlp query"
  define G where "G = foldl (\<lambda>expanded noun. dict_set expanded noun (f noun)) [] nouns"
  have G: "set G = (\<lambda>noun. (noun, f noun)) ` set nouns"
    using set_foldl_dict_set[of "[]" f nouns] by (simp add: G_def)
  have unfold: "app_search_by_content nlp ops se query =
      (case G of
         [] \<Rightarrow> Some (Inr ({}, app_index se))
       | (first_noun, synonyms) # groups \<Rightarrow>
           (case group_postings ops (app_index se) first_noun synonyms of
              None \<Rightarrow> None
            | Some (Inl e) \<Rightarrow> Some (Inl e)
            | Some (Inr (noun_matching_docs, idx)) \<Rightarrow>
                intersect_groups ops idx groups noun_matching_docs))"
    using no_phrase
    by (simp add: app_search_by_content_def Let_def G_def f_def nouns_def query_nouns_def)
  have T: "looked_up nlp query = (\<Union>(noun, synonyms) \<in> set G. insert noun (set synonyms))"
    by (simp add: looked_up_def G nouns_def f_def)
  have R: "(\<Inter>noun \<in> set nouns. group_docs (app_index se) noun (f noun)) =
           (\<Inter>(noun, synonyms) \<in> set G. group_docs (app_index se) noun synonyms)"
    by (simp add: G)
  show ?thesis
  proof (cases G)
    case Nil
    with G have "nouns = []" by simp
    with Nil unfold inv T show ?thesis
      by (simp add: nouns_def added_empty)
  next
    case (Cons g groups)
    obtain first_noun synonyms where g: "g = (first_noun, synonyms)" by (cases g)
    from Cons G have ne: "nouns \<noteq> []" by auto
    from group_postings_result[OF inv, of first_noun synonyms] obtain idx1 where
      a: "group_postings ops (app_index se) first_noun synonyms =
            Some (Inr (group_docs (app_index se) first_noun synonyms, idx1))"
         "invar ops idx1"
         "mapping_of idx1 = added (mapping_of (app_index se)) (insert first_noun (set synonyms))"
      unfolding group_docs_def by blast
    from intersect_groups_result[OF a(2), of groups "group_docs (app_index se) first_noun synonyms"]
    obtain idx' where
      r: "intersect_groups ops idx1 groups (group_docs (app_index se) first_noun synonyms) =
            Some (Inr (group_docs (app_index se) first_noun synonyms \<inter>
                  (\<Inter>(noun, synonyms) \<in> set groups. group_docs idx1 noun synonyms), idx'))"
         "invar ops idx'"
         "mapping_of idx' =
            added (mapping_of idx1) (\<Union>(noun, synonyms) \<in> set groups. insert noun (set synonyms))"
      by blast
    have p: "\<And>noun synonyms. group_docs idx1 noun synonyms = group_docs (app_index se) noun synonyms"
      using group_docs_added[OF a(3)] .
    have m: "mapping_of idx' = added (mapping_of (app_index se)) (looked_up nlp query)"
      using r(3) a(3) by (simp add: added_added T Cons g)
    have "app_search_by_content nlp ops se query =
        Some (Inr (\<Inter>(noun, synonyms) \<in> set G. group_docs (app_index se) noun synonyms, idx'))"
      using a(1) r(1) by (simp add: unfold Cons g p)
    with ne R m r(2) show ?thesis by (auto simp: nouns_def f_def)
  qed
qed

lemma app_search_phrase:
  assumes "app_phrase_matches nlp (items (app_documents se)) query \<noteq> {}"
  shows "app_search_by_content nlp ops se query =
           Some (Inr (app_phrase_matches nlp (items (app_documents se)) query, app_index se))"
  using assms by (simp add: app_search_by_content_def Let_def)

lemma app_example_index:
  "run int_keys (init 4) [Set (Str ''cat'') [Str ''doc1''], Set (Str ''mat'') [Str ''doc1'']] =
     Inr (app_index app_example)"
  by code_simp

lemma app_example_dog:
  "app_search_by_content example_nlp int_keys app_example ''dog'' =
     Some (Inr ({},
       \<lparr>capacity = 8, size' = 3,
        buckets = [[(Str ''mat'', [Str ''doc1''])], [], [], [], [(Str ''dog'', [])], [],
                   [(Str ''cat'', [Str ''doc1''])], []]\<rparr>))"
  by code_simp

lemma app_example_feline:
  "app_phrase_matches example_nlp (items (app_documents app_example)) ''feline'' = {} \<and>
   query_nouns example_nlp ''feline'' = [''feline''] \<and>
   group_docs (app_index app_example) ''feline'' (expand_query_with_synonyms example_nlp [''feline'']) =
     {Str ''doc1''}"
  by code_simp


lemma keys_added:
  assumes m: "mapping_of idx' = added (mapping_of idx) A"
  shows "set (keys idx') = set (keys idx) \<union> Str ` A"
proof -
  have "(k \<in> set (keys idx')) = (k \<in> set (keys idx) \<union> Str ` A)" for k
  proof -
    have "(k \<in> set (keys idx')) = (mapping_of idx' k \<noteq> None)"
      using mapping_of_dom[of idx' k] by simp
    also have "\<dots> = (mapping_of idx k \<noteq> None \<or> k \<in> Str ` A)" by (simp add: m added_def)
    also have "\<dots> = (k \<in> set (keys idx) \<union> Str ` A)"
      using mapping_of_dom[of idx k] by simp
    finally show ?thesis .
  qed
  then show ?thesis by blast
qed

lemma app_example_dog_query:
  "app_phrase_matches example_nlp (items (app_documents app_example)) ''dog'' = {} \<and>
   looked_up example_nlp ''dog'' = {''dog''} \<and>
   keys (app_index app_example) = [Str ''mat'', Str ''cat'']"
  by code_simp

subsection \<open>Queries change the index\<close>

text \<open>
  C9 fails in Indexing_App.py. \<^verbatim>\<open>search_by_content\<close> reads the index with
  \<^verbatim>\<open>self.index.get(term, [])\<close>; the index is a \<^verbatim>\<open>CustomDefaultDict(list)\<close>, whose
  inherited \<^verbatim>\<open>get\<close> calls the overriding \<^verbatim>\<open>__getitem__\<close>, and that stores an empty
  list under a term that is not a key. When a document phrase-matches the query the
  index is not read and stays as it is. Otherwise, with \<^verbatim>\<open>==\<close> on the keys being
  equality and the index in a state reached from a new dictionary, the call returns and
  leaves an index whose terms are the old terms and every noun of the query and every
  member of its synonym group; the new terms have the empty posting list and the old
  terms keep theirs. (The table may have been resized on the way: in the example below
  the capacity grows from 4 to 8.)
\<close>

theorem query_inserts_looked_up_terms:
  assumes "equality_keys ops"
    and "0 < initial_capacity"
    and "run ops (init initial_capacity) operations = Inr (app_index se)"
  shows "\<exists>result idx'. app_search_by_content nlp ops se query = Some (Inr (result, idx')) \<and>
           (app_phrase_matches nlp (items (app_documents se)) query \<noteq> {} \<longrightarrow>
              idx' = app_index se) \<and>
           (app_phrase_matches nlp (items (app_documents se)) query = {} \<longrightarrow>
              set (keys idx') = set (keys (app_index se)) \<union> Str ` looked_up nlp query \<and>
              mapping_of idx' = added (mapping_of (app_index se)) (looked_up nlp query))"
proof (cases "app_phrase_matches nlp (items (app_documents se)) query = {}")
  case True
  from run_invar[OF invar_init[OF assms(1,2)] assms(3)] have inv: "invar ops (app_index se)" .
  from app_search_semantic[OF inv True] obtain idx' where
    r: "app_search_by_content nlp ops se query =
          Some (Inr (if query_nouns nlp query = [] then {}
                     else (\<Inter>noun \<in> set (query_nouns nlp query).
                             group_docs (app_index se) noun (expand_query_with_synonyms nlp [noun])),
                     idx'))"
       "mapping_of idx' = added (mapping_of (app_index se)) (looked_up nlp query)" by blast
  from keys_added[OF r(2)] r True show ?thesis by blast
next
  case False
  from app_search_phrase[OF False, of ops] False show ?thesis by blast
qed

theorem query_inserts_looked_up_terms_witness:
  "\<exists>result idx'. app_search_by_content example_nlp int_keys app_example ''dog'' =
       Some (Inr (result, idx')) \<and>
     set (keys idx') = {Str ''mat'', Str ''cat'', Str ''dog''} \<and>
     set (keys (app_index app_example)) = {Str ''mat'', Str ''cat''}"
  using query_inserts_looked_up_terms[OF equality_int_keys _ app_example_index,
      of example_nlp "''dog''"] app_example_dog_query
  by auto

subsection \<open>The semantic phase\<close>











end
